theory Spec2Isabelle
  imports Main "HOL-Library.List_Lexorder"
begin

section \<open>Python strings\<close>

text \<open>
  A Python \<^verbatim>\<open>str\<close> is a sequence of Unicode code points, and \<^verbatim>\<open>len\<close>,
  slicing and the \<^verbatim>\<open>re\<close> module all count code points. A string of the validator
  is therefore a list of code points, and a literal of the source is written
  \<open>lit ''...''\<close>.
\<close>

type_synonym str = "nat list"

definition lit :: "string \<Rightarrow> str" where
  "lit s = map of_char s"

text \<open>The line feed, \<^verbatim>\<open>'\n'\<close>.\<close>

definition NL :: nat where
  "NL = 10"

text \<open>
  The characters that \<^verbatim>\<open>\s\<close> matches in a \<^verbatim>\<open>str\<close> pattern and that
  \<^verbatim>\<open>str.strip()\<close> removes: U+0009..U+000D, U+001C..U+0020, U+0085, U+00A0, U+1680,
  U+2000..U+200A, U+2028, U+2029, U+202F, U+205F and U+3000.
\<close>

definition is_space :: "nat \<Rightarrow> bool" where
  "is_space c \<longleftrightarrow>
     (9 \<le> c \<and> c \<le> 13) \<or> (28 \<le> c \<and> c \<le> 32) \<or> c = 133 \<or> c = 160 \<or> c = 5760 \<or>
     (8192 \<le> c \<and> c \<le> 8202) \<or> c = 8232 \<or> c = 8233 \<or> c = 8239 \<or> c = 8287 \<or>
     c = 12288"

text \<open>\<^verbatim>\<open>s.strip()\<close>\<close>

definition strip :: "str \<Rightarrow> str" where
  "strip s = rev (dropWhile is_space (rev (dropWhile is_space s)))"

text \<open>\<^verbatim>\<open>s.startswith(p)\<close>, the test a literal prefix of a pattern performs.\<close>

definition starts_with :: "str \<Rightarrow> str \<Rightarrow> bool" where
  "starts_with p s \<longleftrightarrow> take (length p) s = p"

text \<open>
  \<^verbatim>\<open>p in s\<close>, and \<^verbatim>\<open>re.search\<close> of a pattern that is one literal: some
  suffix of \<open>s\<close> starts with \<open>p\<close>.
\<close>

fun contains :: "str \<Rightarrow> str \<Rightarrow> bool" where
  "contains p [] = (p = [])"
| "contains p (c # cs) = (starts_with p (c # cs) \<or> contains p cs)"

text \<open>
  \<^verbatim>\<open>s.split('\n')\<close>: never empty, one more piece than there are line feeds.
  \<open>split_from cur s\<close> splits \<open>s\<close> when the piece being read already holds \<open>cur\<close>.
\<close>

fun split_from :: "str \<Rightarrow> str \<Rightarrow> str list" where
  "split_from cur [] = [cur]"
| "split_from cur (c # cs) =
     (if c = NL then cur # split_from [] cs else split_from (cur @ [c]) cs)"

definition split_nl :: "str \<Rightarrow> str list" where
  "split_nl s = split_from [] s"

text \<open>\<^verbatim>\<open>'\n'.join(ls)\<close>\<close>

fun join_nl :: "str list \<Rightarrow> str" where
  "join_nl [] = []"
| "join_nl [l] = l"
| "join_nl (l # m # ls) = l @ NL # join_nl (m # ls)"

section \<open>The section extractor\<close>

text \<open>
  \<^verbatim>\<open>re.match(r'^##\s+(.+)$', line)\<close>, returning group 1 of the match.

  \<open>dot_plus_eol r\<close> is \<^verbatim>\<open>(.+)$\<close> tried where \<open>r\<close> remains: \<^verbatim>\<open>.\<close> matches
  every character but the line feed and \<^verbatim>\<open>+\<close> is greedy, so group 1 is the longest
  run without a line feed; \<^verbatim>\<open>$\<close> holds at the end of the string and before a line
  feed that ends it. A shorter run is followed by a character that is no line feed,
  where \<^verbatim>\<open>$\<close> fails, so backtracking into \<^verbatim>\<open>.+\<close> finds nothing more.

  \<open>ws_then k r\<close> is the greedy \<^verbatim>\<open>\s+\<close> in front of a continuation: it gives the
  continuation what remains after \<open>k\<close> white-space characters, then after \<open>k - 1\<close>,
  down to one.
\<close>

definition dot_plus_eol :: "str \<Rightarrow> str option" where
  "dot_plus_eol r =
     (let p = takeWhile (\<lambda>c. c \<noteq> NL) r; q = dropWhile (\<lambda>c. c \<noteq> NL) r
      in if p \<noteq> [] \<and> (q = [] \<or> q = [NL]) then Some p else None)"

fun ws_then :: "(str \<Rightarrow> str option) \<Rightarrow> nat \<Rightarrow> str \<Rightarrow> str option" where
  "ws_then cont 0 r = None"
| "ws_then cont (Suc k) r =
     (case cont (drop (Suc k) r) of
        Some g \<Rightarrow> Some g
      | None \<Rightarrow> ws_then cont k r)"

definition header_re :: "str \<Rightarrow> str option" where
  "header_re line =
     (if starts_with (lit ''##'') line
      then let r = drop 2 line
           in ws_then dot_plus_eol (length (takeWhile is_space r)) r
      else None)"

text \<open>
  What a line contributes when the pattern matches it: \<^verbatim>\<open>match.group(1).strip()\<close>,
  the name of the section the line opens.
\<close>

definition header_name :: "str \<Rightarrow> str option" where
  "header_name line = map_option strip (header_re line)"

text \<open>
  The truth value of \<^verbatim>\<open>current_section\<close> in \<^verbatim>\<open>if current_section:\<close>: both
  \<^verbatim>\<open>None\<close> and the empty string are false.
\<close>

fun truthy :: "str option \<Rightarrow> bool" where
  "truthy None = False"
| "truthy (Some n) = (n \<noteq> [])"

text \<open>
  The loop of \<^verbatim>\<open>_extract_sections\<close> over the lines, with \<^verbatim>\<open>sections\<close>,
  \<^verbatim>\<open>current_section\<close> and \<^verbatim>\<open>current_content\<close> as its state; the last equation
  is the statement after the loop, which saves the section still open.
\<close>

definition save_section :: "(str \<rightharpoonup> str) \<Rightarrow> str option \<Rightarrow> str list \<Rightarrow> (str \<rightharpoonup> str)" where
  "save_section sections current_section current_content =
     (if truthy current_section
      then sections(the current_section \<mapsto> join_nl current_content)
      else sections)"

fun scan_lines :: "(str \<rightharpoonup> str) \<Rightarrow> str option \<Rightarrow> str list \<Rightarrow> str list \<Rightarrow> (str \<rightharpoonup> str)" where
  "scan_lines sections current_section current_content [] =
     save_section sections current_section current_content"
| "scan_lines sections current_section current_content (line # lines) =
     (case header_name line of
        Some name \<Rightarrow>
          scan_lines (save_section sections current_section current_content)
            (Some name) [] lines
      | None \<Rightarrow>
          scan_lines sections current_section
            (if truthy current_section then current_content @ [line] else current_content)
            lines)"

definition extract_sections :: "str \<Rightarrow> (str \<rightharpoonup> str)" where
  "extract_sections content = scan_lines Map.empty None [] (split_nl content)"

section \<open>The required structure\<close>

definition REQUIRED_SECTIONS :: "str list" where
  "REQUIRED_SECTIONS =
     [lit ''Agent Name'',
      lit ''Overview'',
      lit ''Responsibilities'',
      lit ''Capabilities'',
      lit ''Triggers & Activation'',
      lit ''Operational Guidelines'',
      lit ''Telemetry & Monitoring'',
      lit ''Safety & Security'',
      lit ''Integration Points'',
      lit ''Runbooks & Documentation'',
      lit ''Ownership & Maintenance'',
      lit ''Change Log'']"

text \<open>The dictionary \<^verbatim>\<open>REQUIRED_SUBSECTIONS\<close>, in the order \<^verbatim>\<open>items()\<close> yields it.\<close>

definition REQUIRED_SUBSECTIONS :: "(str \<times> str list) list" where
  "REQUIRED_SUBSECTIONS =
     [(lit ''Responsibilities'',
         [lit ''Primary Responsibilities'', lit ''Secondary Responsibilities'']),
      (lit ''Capabilities'', [lit ''Core Capabilities'', lit ''Technical Skills'']),
      (lit ''Operational Guidelines'',
         [lit ''Decision Framework'', lit ''Quality Standards'', lit ''Constraints'']),
      (lit ''Telemetry & Monitoring'',
         [lit ''Events to Track'', lit ''Metrics to Monitor'', lit ''Monitoring Dashboard'']),
      (lit ''Safety & Security'',
         [lit ''Safety Considerations'', lit ''Security Requirements'', lit ''Failure Handling'']),
      (lit ''Integration Points'', [lit ''Dependencies'', lit ''Interactions with Other Agents'']),
      (lit ''Runbooks & Documentation'', [lit ''Runbook Links'', lit ''Related Documentation'']),
      (lit ''Ownership & Maintenance'', [])]"

definition REQUIRED_OWNERSHIP_FIELDS :: "str list" where
  "REQUIRED_OWNERSHIP_FIELDS =
     [lit ''Owner'', lit ''Backup Owner'', lit ''Last Updated'', lit ''Review Frequency'']"

section \<open>Validation errors\<close>

record ValidationError =
  filename :: str
  error_type :: str
  details :: str

text \<open>\<^verbatim>\<open>ValidationError.__str__\<close>; the first character is the cross mark U+274C.\<close>

definition str_of_error :: "ValidationError \<Rightarrow> str" where
  "str_of_error e =
     [10060] @ lit '' '' @ filename e @ lit '': ['' @ error_type e @ lit ''] '' @ details e"

section \<open>The checks\<close>

text \<open>
  Every check appends to \<^verbatim>\<open>self.errors\<close> and returns nothing; its model returns the
  errors it appends, in order.
\<close>

definition check_required_sections :: "str \<Rightarrow> (str \<rightharpoonup> str) \<Rightarrow> ValidationError list" where
  "check_required_sections fname sections =
     concat (map (\<lambda>required_section.
       if sections required_section = None
       then [\<lparr>filename = fname, error_type = lit ''MISSING_SECTION'',
              details = lit ''Required section '## '' @ required_section @ lit ''' not found''\<rparr>]
       else []) REQUIRED_SECTIONS)"

definition check_required_subsections ::
    "str \<Rightarrow> str \<Rightarrow> (str \<rightharpoonup> str) \<Rightarrow> ValidationError list" where
  "check_required_subsections fname content sections =
     concat (map (\<lambda>(section, required_subsections).
       case sections section of
         None \<Rightarrow> []
       | Some section_content \<Rightarrow>
           concat (map (\<lambda>subsection.
             if \<not> contains (lit ''### '' @ subsection) section_content
             then [\<lparr>filename = fname, error_type = lit ''MISSING_SUBSECTION'',
                    details = lit ''Required subsection '### '' @ subsection
                      @ lit ''' not found in '## '' @ section @ [39]\<rparr>]
             else []) required_subsections)) REQUIRED_SUBSECTIONS)"

text \<open>
  The two searches for a heading and its body,
  \<^verbatim>\<open>re.search(r'## Ownership & Maintenance\s+(.+?)(?=\n##|\Z)', content, re.DOTALL)\<close> and
  \<^verbatim>\<open>re.search(r'### Events to Track\s+(.+?)(?=\n###|\n##|\Z)', content, re.DOTALL)\<close>,
  are one pattern with two parameters: the literal heading \<open>hdr\<close> and the literal
  alternatives \<open>stops\<close> of the lookahead. \<open>section_search\<close> returns group 1.

  \<open>lookahead stops r\<close> is the lookahead where \<open>r\<close> remains: one of the alternatives
  starts there, or (\<^verbatim>\<open>\Z\<close>) nothing remains.
  \<open>lazy_dot_plus stops r\<close> is \<^verbatim>\<open>(.+?)\<close> followed by the lookahead: with
  \<^verbatim>\<open>re.DOTALL\<close> the dot matches every character, the group takes one character
  and then one more at a time until the lookahead holds, which it does at the end of
  the string at the latest; it fails only when nothing remains.
  \<open>section_at\<close> is the pattern tried at one position, \<open>section_search\<close> tries the
  positions from left to right and stops at the first match.
\<close>

definition lookahead :: "str list \<Rightarrow> str \<Rightarrow> bool" where
  "lookahead stops r \<longleftrightarrow> list_ex (\<lambda>s. starts_with s r) stops \<or> r = []"

fun lazy_upto :: "str list \<Rightarrow> str \<Rightarrow> str" where
  "lazy_upto stops [] = []"
| "lazy_upto stops (c # cs) =
     (if lookahead stops (c # cs) then [] else c # lazy_upto stops cs)"

definition lazy_dot_plus :: "str list \<Rightarrow> str \<Rightarrow> str option" where
  "lazy_dot_plus stops r =
     (case r of [] \<Rightarrow> None | c # cs \<Rightarrow> Some (c # lazy_upto stops cs))"

definition section_at :: "str \<Rightarrow> str list \<Rightarrow> str \<Rightarrow> str option" where
  "section_at hdr stops s =
     (if starts_with hdr s
      then let r = drop (length hdr) s
           in ws_then (lazy_dot_plus stops) (length (takeWhile is_space r)) r
      else None)"

fun section_search :: "str \<Rightarrow> str list \<Rightarrow> str \<Rightarrow> str option" where
  "section_search hdr stops [] = section_at hdr stops []"
| "section_search hdr stops (c # cs) =
     (case section_at hdr stops (c # cs) of
        Some g \<Rightarrow> Some g
      | None \<Rightarrow> section_search hdr stops cs)"

text \<open>
  \<^verbatim>\<open>field_pattern\<close> is the field name between two pairs of asterisks and a colon,
  every character of it escaped, so searching for it is searching for a substring.
\<close>

definition field_label :: "str \<Rightarrow> str" where
  "field_label field = lit ''**'' @ field @ lit ''**:''"

definition check_ownership_fields :: "str \<Rightarrow> str \<Rightarrow> ValidationError list" where
  "check_ownership_fields fname content =
     (case section_search (lit ''## Ownership & Maintenance'') [NL # lit ''##''] content of
        None \<Rightarrow> []
      | Some ownership_content \<Rightarrow>
          concat (map (\<lambda>field.
            if \<not> contains (field_label field) ownership_content
            then [\<lparr>filename = fname, error_type = lit ''MISSING_FIELD'',
                   details = lit ''Required field '**'' @ field
                     @ lit '':**' not found in Ownership & Maintenance''\<rparr>]
            else []) REQUIRED_OWNERSHIP_FIELDS))"

definition check_role_field :: "str \<Rightarrow> str \<Rightarrow> ValidationError list" where
  "check_role_field fname content =
     (if \<not> contains (lit ''**Role**:'') (take 500 content)
      then [\<lparr>filename = fname, error_type = lit ''MISSING_FIELD'',
             details = lit ''Required field '**Role:**' not found near the top of the file''\<rparr>]
      else [])"

text \<open>
  \<^verbatim>\<open>Path(filename).stem\<close> for a \<^verbatim>\<open>filename\<close> that is one path component, as
  \<^verbatim>\<open>filepath.name\<close> is: with \<^verbatim>\<open>i = name.rfind('.')\<close>, the stem is \<^verbatim>\<open>name[:i]\<close>
  if \<^verbatim>\<open>0 < i < len(name) - 1\<close> and the whole name otherwise.
\<close>

fun rfind :: "nat \<Rightarrow> str \<Rightarrow> int" where
  "rfind c [] = - 1"
| "rfind c (x # xs) =
     (let i = rfind c xs
      in if 0 \<le> i then i + 1 else if x = c then 0 else - 1)"

definition stem :: "str \<Rightarrow> str" where
  "stem name =
     (let i = rfind 46 name
      in if 0 < i \<and> i < int (length name) - 1 then take (nat i) name else name)"

text \<open>
  \<^verbatim>\<open>re.findall(r'`agent\.([a-z-]+)\.', events_content)\<close>. \<open>event_at s\<close> is the
  pattern tried at the start of \<open>s\<close>: after the literal, the greedy class takes the
  longest run of lowercase letters and hyphens, and the dot must follow it; a shorter
  run is followed by a letter or a hyphen, so backtracking finds nothing more.
  \<^verbatim>\<open>findall\<close> scans from left to right and continues after the end of each match.
\<close>

definition is_name_char :: "nat \<Rightarrow> bool" where
  "is_name_char c \<longleftrightarrow> (97 \<le> c \<and> c \<le> 122) \<or> c = 45"

definition event_at :: "str \<Rightarrow> str option" where
  "event_at s =
     (if starts_with (lit ''`agent.'') s
      then let t = takeWhile is_name_char (drop 7 s)
           in if t \<noteq> [] \<and> starts_with (lit ''.'') (drop (7 + length t) s)
              then Some t else None
      else None)"

function findall_events :: "str \<Rightarrow> str list" where
  "findall_events [] = []"
| "findall_events (c # cs) =
     (case event_at (c # cs) of
        Some t \<Rightarrow> t # findall_events (drop (7 + length t) cs)
      | None \<Rightarrow> findall_events cs)"
  by pat_completeness auto
termination
  by (relation "measure length") auto

definition check_telemetry_events :: "str \<Rightarrow> str \<Rightarrow> ValidationError list" where
  "check_telemetry_events fname content =
     (case section_search (lit ''### Events to Track'') [NL # lit ''###'', NL # lit ''##''] content of
        None \<Rightarrow> []
      | Some events_content \<Rightarrow>
          let agent_name = stem fname;
              events = findall_events events_content
          in if events \<noteq> []
             then let correct_events = filter (\<lambda>e. e = agent_name) events
                  in if correct_events = []
                     then [\<lparr>filename = fname, error_type = lit ''TELEMETRY_NAMING'',
                            details = lit ''Telemetry events should follow pattern `agent.''
                              @ agent_name @ lit ''.*`''\<rparr>]
                     else []
             else [])"

section \<open>Validating files and the run\<close>

text \<open>
  The file system is an input of the run. A candidate file is its \<^verbatim>\<open>filepath.name\<close>
  and what \<^verbatim>\<open>filepath.read_text(encoding='utf-8')\<close> does: \<open>Inr content\<close> when it
  returns, \<open>Inl msg\<close> when it raises an exception \<^verbatim>\<open>e\<close> with \<^verbatim>\<open>str(e) = msg\<close>.
  The directory is \<^verbatim>\<open>str(agents_dir)\<close>, \<^verbatim>\<open>agents_dir.exists()\<close> and the files
  \<^verbatim>\<open>agents_dir.glob("*.md")\<close> yields.
\<close>

record agent_file =
  file_name :: str
  read_text :: "str + str"

record directory =
  dir_path :: str
  dir_exists :: bool
  glob_md :: "agent_file list"

text \<open>
  The validator object: \<^verbatim>\<open>self.errors\<close>, and the strings the run has passed to
  \<^verbatim>\<open>print\<close>, one element for each call.
\<close>

record validator =
  errors :: "ValidationError list"
  stdout :: "str list"

definition print :: "str \<Rightarrow> validator \<Rightarrow> validator" where
  "print line v = v\<lparr>stdout := stdout v @ [line]\<rparr>"

text \<open>The decimal digits of a number, as an f-string formats \<^verbatim>\<open>len(...)\<close>.\<close>

fun str_of_nat :: "nat \<Rightarrow> str" where
  "str_of_nat n = (if n < 10 then [48 + n] else str_of_nat (n div 10) @ [48 + n mod 10])"

text \<open>The five checks of \<^verbatim>\<open>validate_file\<close> on the text that was read, in their order.\<close>

definition validate_content :: "str \<Rightarrow> str \<Rightarrow> ValidationError list" where
  "validate_content fname content =
     (let sections = extract_sections content
      in check_required_sections fname sections
         @ check_required_subsections fname content sections
         @ check_ownership_fields fname content
         @ check_role_field fname content
         @ check_telemetry_events fname content)"

definition validate_file :: "agent_file \<Rightarrow> validator \<Rightarrow> validator" where
  "validate_file filepath v =
     (let v1 = print ([128196] @ lit '' Validating '' @ file_name filepath @ lit ''...'') v
      in case read_text filepath of
           Inl e \<Rightarrow>
             v1\<lparr>errors := errors v1 @
               [\<lparr>filename = file_name filepath, error_type = lit ''READ_ERROR'',
                 details = lit ''Failed to read file: '' @ e\<rparr>]\<rparr>
         | Inr content \<Rightarrow>
             v1\<lparr>errors := errors v1 @ validate_content (file_name filepath) content\<rparr>)"

text \<open>
  \<^verbatim>\<open>validate_all\<close> returns its boolean and the validator as the run leaves it;
  \<open>agent_files\<close> is its list of that name, the files left after the two excluded
  names. \<^verbatim>\<open>sorted(agent_files)\<close> orders the paths of one directory by their names, code
  point by code point.
\<close>

definition agent_files :: "directory \<Rightarrow> agent_file list" where
  "agent_files agents_dir =
     filter (\<lambda>f. file_name f \<noteq> lit ''TEMPLATE.md'' \<and> file_name f \<noteq> lit ''README.md'')
       (glob_md agents_dir)"

definition validate_all :: "directory \<Rightarrow> validator \<Rightarrow> bool \<times> validator" where
  "validate_all agents_dir v =
     (if \<not> dir_exists agents_dir
      then (False,
            print ([10060] @ lit '' Error: Directory '' @ dir_path agents_dir
                   @ lit '' does not exist'') v)
      else if agent_files agents_dir = []
      then (True,
            print ([9888, 65039] @ lit ''  Warning: No agent specification files found in ''
                   @ dir_path agents_dir) v)
      else
        let v1 = print ([128269] @ lit '' Validating ''
                        @ str_of_nat (length (agent_files agents_dir))
                        @ lit '' agent specification(s)...'' @ [NL]) v;
            v2 = fold validate_file (sort_key file_name (agent_files agents_dir)) v1
        in (errors v2 = [], v2))"

definition print_summary :: "validator \<Rightarrow> validator" where
  "print_summary v =
     (let v1 = print [] v
      in if errors v1 \<noteq> []
         then let v2 = print (replicate 70 61) v1;
                  v3 = print (lit ''VALIDATION FAILURES'') v2;
                  v4 = print (replicate 70 61) v3;
                  v5 = fold (\<lambda>error. print (str_of_error error)) (errors v4) v4;
                  v6 = print [] v5
              in print ([10060] @ lit '' Validation failed with ''
                        @ str_of_nat (length (errors v6)) @ lit '' error(s)'') v6
         else let v2 = print (replicate 70 61) v1;
                  v3 = print ([9989] @ lit '' All agent specifications passed validation!'') v2
              in print (replicate 70 61) v3)"

text \<open>
  \<^verbatim>\<open>main\<close>, given \<^verbatim>\<open>str(repo_root)\<close> and the directory: what it prints, and the
  code it passes to \<^verbatim>\<open>sys.exit\<close>.
\<close>

definition main :: "str \<Rightarrow> directory \<Rightarrow> str list \<times> nat" where
  "main repo_root agents_dir =
     (let v0 = \<lparr>errors = [], stdout = []\<rparr>;
          v1 = print (lit ''Agent Specification Validator'') v0;
          v2 = print (replicate 70 61) v1;
          v3 = print (lit ''Repository root: '' @ repo_root) v2;
          v4 = print (lit ''Agents directory: '' @ dir_path agents_dir) v3;
          v5 = print [] v4;
          (success, validator) = validate_all agents_dir v5;
          v6 = print_summary validator
      in (stdout v6, if success then 0 else 1))"

section \<open>Notions the statements use\<close>

text \<open>
  The errors one file contributes: what \<^verbatim>\<open>validate_file\<close> appends to the errors
  of a validator that has none.
\<close>

definition file_errors :: "agent_file \<Rightarrow> ValidationError list" where
  "file_errors f = errors (validate_file f \<lparr>errors = [], stdout = []\<rparr>)"

text \<open>
  An occurrence of a telemetry event of the agent \<open>t\<close> in a text: a backtick,
  \<^verbatim>\<open>agent.\<close>, the token \<open>t\<close> made of one or more lowercase letters and hyphens,
  and a dot.
\<close>

definition token_occurs :: "str \<Rightarrow> str \<Rightarrow> bool" where
  "token_occurs t body \<longleftrightarrow>
     t \<noteq> [] \<and> list_all is_name_char t \<and> contains (lit ''`agent.'' @ t @ lit ''.'') body"

text \<open>
  A text with its line \<open>i\<close> deleted: the lines of the text except the one at index
  \<open>i\<close>, joined again.
\<close>

definition delete_line :: "nat \<Rightarrow> str \<Rightarrow> str" where
  "delete_line i content =
     (let ls = split_nl content in join_nl (take i ls @ drop (Suc i) ls))"

text \<open>
  The shape of a heading line, said without the pattern: two heading markers, a
  white-space character, and at least one more character, white space or not.
\<close>

definition heading_shape :: "str \<Rightarrow> bool" where
  "heading_shape line \<longleftrightarrow>
     starts_with (lit ''##'') line \<and>
     (case drop 2 line of [] \<Rightarrow> False | w # title \<Rightarrow> is_space w \<and> title \<noteq> [])"

section \<open>Strings: basic facts\<close>

lemmas eval_defs =
  lit_def NL_def split_nl_def is_space_def strip_def starts_with_def header_re_def header_name_def
  dot_plus_eol_def save_section_def extract_sections_def

lemma starts_with_iff: "starts_with p s \<longleftrightarrow> (\<exists>post. s = p @ post)"
proof
  assume "starts_with p s"
  then have "s = p @ drop (length p) s"
    unfolding starts_with_def by (metis append_take_drop_id)
  then show "\<exists>post. s = p @ post" ..
next
  assume "\<exists>post. s = p @ post"
  then show "starts_with p s" by (auto simp: starts_with_def)
qed

lemma contains_iff: "contains p s \<longleftrightarrow> (\<exists>pre post. s = pre @ p @ post)"
proof (induction s)
  case Nil
  show ?case by auto
next
  case (Cons c cs)
  show ?case
  proof
    assume "contains p (c # cs)"
    then consider "starts_with p (c # cs)" | "contains p cs" by auto
    then show "\<exists>pre post. c # cs = pre @ p @ post"
    proof cases
      case 1
      then obtain post where "c # cs = p @ post" by (auto simp: starts_with_iff)
      then have "c # cs = [] @ p @ post" by simp
      then show ?thesis by blast
    next
      case 2
      with Cons obtain pre post where "cs = pre @ p @ post" by auto
      then have "c # cs = (c # pre) @ p @ post" by simp
      then show ?thesis by blast
    qed
  next
    assume "\<exists>pre post. c # cs = pre @ p @ post"
    then obtain pre post where eq: "c # cs = pre @ p @ post" by blast
    show "contains p (c # cs)"
    proof (cases pre)
      case Nil
      with eq have "starts_with p (c # cs)" by (auto simp: starts_with_iff)
      then show ?thesis by simp
    next
      case (Cons a pre')
      with eq have "cs = pre' @ p @ post" by simp
      with Cons.IH have "contains p cs" by blast
      then show ?thesis by simp
    qed
  qed
qed

section \<open>The section extractor: last occurrence wins\<close>

lemma scan_lines_body:
  "truthy cur \<Longrightarrow> \<forall>l\<in>set body. header_name l = None \<Longrightarrow>
   scan_lines secs cur acc (body @ rest) = scan_lines secs cur (acc @ body) rest"
  by (induction body arbitrary: acc) simp_all

lemma save_section_other:
  "cur \<noteq> Some name \<Longrightarrow> save_section secs cur acc name = secs name"
  by (cases cur) (auto simp: save_section_def)

lemma scan_lines_other:
  "\<forall>l\<in>set rest. header_name l \<noteq> Some name \<Longrightarrow> cur \<noteq> Some name \<Longrightarrow>
   scan_lines secs cur acc rest name = secs name"
proof (induction rest arbitrary: secs cur acc)
  case Nil
  then show ?case by (simp add: save_section_other)
next
  case (Cons l ls)
  show ?case
  proof (cases "header_name l")
    case None
    with Cons show ?thesis by simp
  next
    case (Some n)
    with Cons.prems have "n \<noteq> name" by auto
    then have "scan_lines (save_section secs cur acc) (Some n) [] ls name
        = save_section secs cur acc name"
      using Cons.prems by (intro Cons.IH) auto
    also have "\<dots> = secs name"
      using Cons.prems(2) by (rule save_section_other)
    finally show ?thesis using Some by simp
  qed
qed

lemma scan_lines_prefix:
  "\<exists>secs' cur' acc'. \<forall>ls. scan_lines secs cur acc (pre @ ls) = scan_lines secs' cur' acc' ls"
proof (induction pre arbitrary: secs cur acc)
  case Nil
  show ?case by auto
next
  case (Cons l pre)
  show ?case
  proof (cases "header_name l")
    case None
    with Cons[of secs cur "if truthy cur then acc @ [l] else acc"] show ?thesis by simp
  next
    case (Some n)
    with Cons[of "save_section secs cur acc" "Some n" "[]"] show ?thesis by simp
  qed
qed

lemma scan_lines_last_wins:
  assumes h: "header_name h = Some name" and ne: "name \<noteq> []"
    and body: "\<forall>l\<in>set body. header_name l = None"
    and nxt: "rest = [] \<or> header_name (hd rest) \<noteq> None"
    and later: "\<forall>l\<in>set rest. header_name l \<noteq> Some name"
  shows "scan_lines secs cur acc (pre @ h # body @ rest) name = Some (join_nl body)"
proof -
  obtain s c a where pre: "\<And>ls. scan_lines secs cur acc (pre @ ls) = scan_lines s c a ls"
    using scan_lines_prefix[of secs cur acc pre] by blast
  let ?s = "save_section s c a"
  have "scan_lines secs cur acc (pre @ h # body @ rest)
      = scan_lines ?s (Some name) [] (body @ rest)"
    using pre h by simp
  also have "\<dots> = scan_lines ?s (Some name) body rest"
    using scan_lines_body[of "Some name" body ?s "[]" rest] ne body by simp
  finally have eq: "scan_lines secs cur acc (pre @ h # body @ rest)
      = scan_lines ?s (Some name) body rest" .
  show ?thesis
  proof (cases rest)
    case Nil
    with eq ne show ?thesis by (simp add: save_section_def)
  next
    case (Cons r rs)
    with nxt obtain n where n: "header_name r = Some n" by auto
    with later Cons have nn: "n \<noteq> name" by auto
    have "scan_lines ?s (Some name) body rest name
        = scan_lines (save_section ?s (Some name) body) (Some n) [] rs name"
      using Cons n by simp
    also have "\<dots> = save_section ?s (Some name) body name"
      using later Cons nn by (intro scan_lines_other) auto
    also have "\<dots> = Some (join_nl body)"
      using ne by (simp add: save_section_def)
    finally show ?thesis using eq by simp
  qed
qed

lemma save_section_empty: "save_section secs cur acc [] = secs []"
  by (cases cur) (auto simp: save_section_def)

lemma scan_lines_empty: "scan_lines secs cur acc ls [] = secs []"
  by (induction ls arbitrary: secs cur acc) (auto simp: save_section_empty split: option.splits)

lemma extract_sections_empty: "extract_sections content [] = None"
  by (simp add: extract_sections_def scan_lines_empty)

lemma extract_sections_header_name:
  "extract_sections content name = Some b \<longleftrightarrow>
     name \<noteq> [] \<and>
     (\<exists>pre h body rest. split_nl content = pre @ h # body @ rest
        \<and> header_name h = Some name
        \<and> (\<forall>l\<in>set body. header_name l = None)
        \<and> (rest = [] \<or> header_name (hd rest) \<noteq> None)
        \<and> (\<forall>l\<in>set rest. header_name l \<noteq> Some name)
        \<and> b = join_nl body)"
  (is "?L \<longleftrightarrow> ?ne \<and> ?R")
proof
  assume L: ?L
  then have ne: "name \<noteq> []" using extract_sections_empty[of content] by auto
  have "\<exists>l\<in>set (split_nl content). header_name l = Some name"
  proof (rule ccontr)
    assume "\<not> (\<exists>l\<in>set (split_nl content). header_name l = Some name)"
    then have "\<forall>l\<in>set (split_nl content). header_name l \<noteq> Some name" by blast
    then have "scan_lines Map.empty None [] (split_nl content) name = Map.empty name"
      by (rule scan_lines_other) simp
    with L show False by (simp add: extract_sections_def)
  qed
  then obtain pre h tl_lines where sp: "split_nl content = pre @ h # tl_lines"
    and h: "header_name h = Some name"
    and later: "\<forall>l\<in>set tl_lines. header_name l \<noteq> Some name"
    using split_list_last_prop[of "split_nl content" "\<lambda>l. header_name l = Some name"] by blast
  let ?body = "takeWhile (\<lambda>l. header_name l = None) tl_lines"
  let ?rest = "dropWhile (\<lambda>l. header_name l = None) tl_lines"
  have sp': "split_nl content = pre @ h # ?body @ ?rest" using sp by simp
  have body: "\<forall>l\<in>set ?body. header_name l = None" by (auto dest: set_takeWhileD)
  have nxt: "?rest = [] \<or> header_name (hd ?rest) \<noteq> None"
    using hd_dropWhile[of "\<lambda>l. header_name l = None" tl_lines] by blast
  have later': "\<forall>l\<in>set ?rest. header_name l \<noteq> Some name"
    using later by (auto dest: set_dropWhileD)
  have "scan_lines Map.empty None [] (pre @ h # ?body @ ?rest) name = Some (join_nl ?body)"
    using h ne body nxt later' by (rule scan_lines_last_wins)
  with L have "b = join_nl ?body" unfolding extract_sections_def sp' by simp
  with sp' h body nxt later' have ?R by blast
  with ne show "?ne \<and> ?R" by blast
next
  assume "?ne \<and> ?R"
  then obtain pre h body rest where ne: "name \<noteq> []"
    and sp: "split_nl content = pre @ h # body @ rest"
    and h: "header_name h = Some name"
    and body: "\<forall>l\<in>set body. header_name l = None"
    and nxt: "rest = [] \<or> header_name (hd rest) \<noteq> None"
    and later: "\<forall>l\<in>set rest. header_name l \<noteq> Some name"
    and b: "b = join_nl body" by blast
  have "scan_lines Map.empty None [] (pre @ h # body @ rest) name = Some (join_nl body)"
    using h ne body nxt later by (rule scan_lines_last_wins)
  then show ?L unfolding extract_sections_def sp b by simp
qed

text \<open>
  C1 (amended). A heading line is a line that the pattern of the extractor matches, and
  its name is the title the pattern captures, trimmed. Let \<open>h\<close> be the last heading line
  of the text with the name \<open>name\<close>, whatever comes before it, also earlier heading
  lines of the same name, and let \<open>body\<close> be the lines after \<open>h\<close> up to the next
  heading line or the end of the text. If the name is not empty, the section map binds
  it to these lines joined by line feeds, nothing trimmed. The empty name, which a
  heading line has whose title is white space, is bound to nothing.
\<close>

theorem last_wins:
  assumes "split_nl content = pre @ h # body @ rest"
    and "header_name h = Some name"
    and "\<forall>l\<in>set body. header_name l = None"
    and "rest = [] \<or> header_name (hd rest) \<noteq> None"
    and "\<forall>l\<in>set rest. header_name l \<noteq> Some name"
  shows "extract_sections content name = (if name = [] then None else Some (join_nl body))"
proof (cases "name = []")
  case True
  then show ?thesis by (simp add: extract_sections_empty)
next
  case False
  have "scan_lines Map.empty None [] (pre @ h # body @ rest) name = Some (join_nl body)"
    using assms(2) False assms(3-5) by (rule scan_lines_last_wins)
  then show ?thesis using False unfolding extract_sections_def assms(1) by simp
qed

text \<open>
  The text of the claim, at which the law gives the body \<^verbatim>\<open>"y\n"\<close>: the last line of
  the text is empty, and it belongs to the section.
\<close>

theorem last_wins_witness:
  "extract_sections (lit ''## A\<newline>x\<newline>## A\<newline>y\<newline>'') (lit ''A'') = Some (lit ''y\<newline>'')"
  using last_wins[of "lit ''## A\<newline>x\<newline>## A\<newline>y\<newline>''" "[lit ''## A'', lit ''x'']" "lit ''## A''"
     "[lit ''y'', []]" "[]" "lit ''A''"]
  by (simp add: eval_defs)

text \<open>C1 as stated fails: the body bound to \<^verbatim>\<open>A\<close> is not \<^verbatim>\<open>"y"\<close>.\<close>

theorem last_wins_body_counterexample:
  "extract_sections (lit ''## A\<newline>x\<newline>## A\<newline>y\<newline>'') (lit ''A'') \<noteq> Some (lit ''y'')"
  by (simp add: eval_defs)

section \<open>The section extractor: which lines are headings\<close>

lemma split_from_no_NL:
  "l \<in> set (split_from cur s) \<Longrightarrow> NL \<notin> set cur \<Longrightarrow> NL \<notin> set l"
proof (induction s arbitrary: cur)
  case Nil
  then show ?case by simp
next
  case (Cons c cs)
  show ?case
  proof (cases "c = NL")
    case True
    with Cons.prems have "l = cur \<or> l \<in> set (split_from [] cs)" by simp
    then show ?thesis using Cons.prems(2) Cons.IH[of "[]"] by auto
  next
    case False
    with Cons.prems have "l \<in> set (split_from (cur @ [c]) cs)" by simp
    then show ?thesis using Cons.prems(2) False Cons.IH[of "cur @ [c]"] by auto
  qed
qed

lemma split_nl_no_NL: "l \<in> set (split_nl s) \<Longrightarrow> NL \<notin> set l"
  using split_from_no_NL[of l "[]" s] by (simp add: split_nl_def)

lemma dot_plus_eol_line:
  assumes "NL \<notin> set r"
  shows "dot_plus_eol r = (if r = [] then None else Some r)"
proof -
  have t: "takeWhile (\<lambda>c. c \<noteq> NL) r = r"
    using assms by (intro takeWhile_eq_all_conv[THEN iffD2]) auto
  have d: "dropWhile (\<lambda>c. c \<noteq> NL) r = []"
    using assms by (intro dropWhile_eq_Nil_conv[THEN iffD2]) auto
  show ?thesis unfolding dot_plus_eol_def Let_def t d by simp
qed

lemma ws_then_line:
  assumes "NL \<notin> set r"
  shows "k \<le> length r \<Longrightarrow>
    ws_then dot_plus_eol k r =
      (if k = 0 then None
       else if k < length r then Some (drop k r)
       else if 2 \<le> k then Some (drop (k - 1) r) else None)"
proof (induction k)
  case 0
  show ?case by simp
next
  case (Suc k)
  have nl: "NL \<notin> set (drop (Suc k) r)" using assms by (meson in_set_dropD)
  show ?case
  proof (cases "Suc k < length r")
    case True
    then show ?thesis by (simp add: dot_plus_eol_line[OF nl])
  next
    case False
    with Suc.prems have len: "length r = Suc k" by simp
    then have "drop (Suc k) r = []" by simp
    then have "ws_then dot_plus_eol (Suc k) r = ws_then dot_plus_eol k r"
      by (simp add: dot_plus_eol_def)
    also have "\<dots> = (if k = 0 then None else Some (drop k r))"
      using Suc.IH len by simp
    finally show ?thesis using len by auto
  qed
qed

lemma header_re_line:
  assumes "NL \<notin> set line"
  shows "header_re line =
    (let r = drop 2 line; n = length (takeWhile is_space r)
     in if \<not> starts_with (lit ''##'') line \<or> n = 0 then None
        else if n < length r then Some (drop n r)
        else if 2 \<le> n then Some (drop (n - 1) r) else None)"
proof -
  have nl: "NL \<notin> set (drop 2 line)" using assms by (meson in_set_dropD)
  have le: "length (takeWhile is_space (drop 2 line)) \<le> length (drop 2 line)"
    by (rule length_takeWhile_le)
  show ?thesis
    unfolding header_re_def Let_def using ws_then_line[OF nl le] by simp
qed

lemma strip_all_space: "\<forall>c\<in>set s. is_space c \<Longrightarrow> strip s = []"
proof -
  assume "\<forall>c\<in>set s. is_space c"
  then have d: "dropWhile is_space s = []" by (rule dropWhile_eq_Nil_conv[THEN iffD2])
  show ?thesis unfolding strip_def d by simp
qed

lemma takeWhile_all_length:
  "\<not> length (takeWhile P xs) < length xs \<Longrightarrow> \<forall>x\<in>set xs. P x"
proof -
  assume "\<not> length (takeWhile P xs) < length xs"
  moreover have "length (takeWhile P xs) \<le> length xs" by (rule length_takeWhile_le)
  ultimately have "length (takeWhile P xs) = length xs" by simp
  moreover have "length (takeWhile P xs) + length (dropWhile P xs) = length xs"
    by (metis length_append takeWhile_dropWhile_id)
  ultimately have "dropWhile P xs = []" by simp
  then show ?thesis by (rule dropWhile_eq_Nil_conv[THEN iffD1])
qed

lemma strip_dropWhile: "strip (dropWhile is_space s) = strip s"
  by (simp add: strip_def dropWhile_idem)

lemma header_name_strip:
  assumes nl: "NL \<notin> set line" and h: "header_name line = Some name"
  shows "name = strip (drop 2 line)"
proof -
  let ?r = "drop 2 line"
  let ?n = "length (takeWhile is_space ?r)"
  from h obtain g where g: "header_re line = Some g" and name: "name = strip g"
    by (auto simp: header_name_def)
  show ?thesis
  proof (cases "?n < length ?r")
    case True
    with g have "g = drop ?n ?r"
      by (auto simp: header_re_line[OF nl] Let_def split: if_splits)
    then have "g = dropWhile is_space ?r" by (simp add: dropWhile_eq_drop)
    then show ?thesis using name by (simp add: strip_dropWhile)
  next
    case False
    then have sp: "\<forall>c\<in>set ?r. is_space c" by (rule takeWhile_all_length)
    from False g have gg: "g = drop (?n - 1) ?r" and two: "2 \<le> ?n"
      by (auto simp: header_re_line[OF nl] Let_def split: if_splits)
    have "set g \<subseteq> set ?r" unfolding gg by (rule set_drop_subset)
    with sp have "\<forall>c\<in>set g. is_space c" by auto
    then show ?thesis using name sp by (simp add: strip_all_space)
  qed
qed

lemma header_re_iff:
  assumes nl: "NL \<notin> set line"
  shows "header_re line \<noteq> None \<longleftrightarrow>
    (\<exists>ws title. line = lit ''##'' @ ws @ title \<and> ws \<noteq> [] \<and> (\<forall>c\<in>set ws. is_space c) \<and> title \<noteq> [])"
    (is "?L \<longleftrightarrow> ?R")
proof
  let ?r = "drop 2 line"
  let ?n = "length (takeWhile is_space ?r)"
  assume ?L
  then have sw: "starts_with (lit ''##'') line" and n0: "?n \<noteq> 0"
    and c: "?n < length ?r \<or> 2 \<le> ?n"
    by (auto simp: header_re_line[OF nl] Let_def split: if_splits)
  from sw have line: "line = lit ''##'' @ ?r"
    by (auto simp: starts_with_iff lit_def)
  show ?R
  proof (cases "?n < length ?r")
    case True
    have "?r = takeWhile is_space ?r @ dropWhile is_space ?r" by simp
    moreover have "takeWhile is_space ?r \<noteq> []" using n0 by simp
    moreover have "\<forall>c\<in>set (takeWhile is_space ?r). is_space c" by (auto dest: set_takeWhileD)
    moreover have "dropWhile is_space ?r \<noteq> []"
    proof
      assume "dropWhile is_space ?r = []"
      then have "takeWhile is_space ?r = ?r" by (metis append_Nil2 takeWhile_dropWhile_id)
      with True show False by simp
    qed
    ultimately have "line = lit ''##'' @ takeWhile is_space ?r @ dropWhile is_space ?r
        \<and> takeWhile is_space ?r \<noteq> [] \<and> (\<forall>c\<in>set (takeWhile is_space ?r). is_space c)
        \<and> dropWhile is_space ?r \<noteq> []"
      using line by simp
    then show ?thesis by blast
  next
    case False
    with c have two: "2 \<le> ?n" by simp
    from False have sp: "\<forall>c\<in>set ?r. is_space c" by (rule takeWhile_all_length)
    have "?n \<le> length ?r" by (rule length_takeWhile_le)
    with two have len: "2 \<le> length ?r" by simp
    obtain bs b where bs: "?r = bs @ [b]"
      using len by (cases ?r rule: rev_cases) auto
    with len have "bs \<noteq> []" by auto
    moreover have "\<forall>c\<in>set bs. is_space c" using sp bs by auto
    moreover have "line = lit ''##'' @ bs @ [b]" using line bs by simp
    ultimately show ?thesis by blast
  qed
next
  assume ?R
  then obtain ws title where line: "line = lit ''##'' @ ws @ title" and ws: "ws \<noteq> []"
    and sp: "\<forall>c\<in>set ws. is_space c" and title: "title \<noteq> []" by blast
  let ?r = "drop 2 line"
  let ?n = "length (takeWhile is_space ?r)"
  have r: "?r = ws @ title" using line by (simp add: lit_def)
  have sw: "starts_with (lit ''##'') line" using line by (auto simp: starts_with_iff)
  have "takeWhile is_space (ws @ title) = ws @ takeWhile is_space title"
    using sp by (simp add: takeWhile_append2)
  then have n: "length ws \<le> ?n" using r by simp
  with ws have n0: "?n \<noteq> 0" by auto
  have "?n < length ?r \<or> 2 \<le> ?n"
  proof (cases "?n < length ?r")
    case False
    then have "length ?r \<le> ?n" by simp
    moreover have "2 \<le> length ?r" using r ws title
      by (cases ws; cases title) auto
    ultimately show ?thesis by simp
  qed simp
  with sw n0 show ?L by (auto simp: header_re_line[OF nl] Let_def)
qed

lemma heading_shape_iff:
  "heading_shape line \<longleftrightarrow>
     (\<exists>ws title. line = lit ''##'' @ ws @ title \<and> ws \<noteq> [] \<and> (\<forall>c\<in>set ws. is_space c) \<and> title \<noteq> [])"
proof
  assume hs: "heading_shape line"
  then have "starts_with (lit ''##'') line" by (simp add: heading_shape_def)
  then have line: "line = lit ''##'' @ drop 2 line" by (auto simp: starts_with_iff lit_def)
  from hs obtain w title where r: "drop 2 line = w # title" and w: "is_space w" and t: "title \<noteq> []"
    by (auto simp: heading_shape_def split: list.splits)
  from line r have "line = lit ''##'' @ [w] @ title" by simp
  with w t have "line = lit ''##'' @ [w] @ title \<and> [w] \<noteq> [] \<and> (\<forall>c\<in>set [w]. is_space c) \<and> title \<noteq> []"
    by simp
  then show "\<exists>ws title. line = lit ''##'' @ ws @ title \<and> ws \<noteq> [] \<and> (\<forall>c\<in>set ws. is_space c) \<and> title \<noteq> []"
    by blast
next
  assume "\<exists>ws title. line = lit ''##'' @ ws @ title \<and> ws \<noteq> [] \<and> (\<forall>c\<in>set ws. is_space c) \<and> title \<noteq> []"
  then obtain ws title where line: "line = lit ''##'' @ ws @ title" and ws: "ws \<noteq> []"
    and sp: "\<forall>c\<in>set ws. is_space c" and t: "title \<noteq> []" by blast
  from ws obtain w ws' where w: "ws = w # ws'" by (cases ws) auto
  have sw: "starts_with (lit ''##'') line" using line by (auto simp: starts_with_iff)
  have "drop 2 line = w # (ws' @ title)" using line w by (simp add: lit_def)
  then show "heading_shape line" using sw sp w t by (simp add: heading_shape_def)
qed

lemma header_name_shape:
  assumes nl: "NL \<notin> set line"
  shows "header_name line = (if heading_shape line then Some (strip (drop 2 line)) else None)"
proof (cases "header_name line")
  case None
  then have "header_re line = None" by (simp add: header_name_def)
  then have "\<not> heading_shape line"
    using header_re_iff[OF nl] unfolding heading_shape_iff by simp
  with None show ?thesis by simp
next
  case (Some name)
  then have "header_re line \<noteq> None" by (auto simp: header_name_def)
  then have "heading_shape line"
    using header_re_iff[OF nl] unfolding heading_shape_iff by simp
  moreover have "name = strip (drop 2 line)" using nl Some by (rule header_name_strip)
  ultimately show ?thesis using Some by simp
qed

lemma hashes_no_shape: "starts_with (lit ''###'') line \<Longrightarrow> \<not> heading_shape line"
proof -
  assume "starts_with (lit ''###'') line"
  then obtain post where "line = lit ''###'' @ post" by (auto simp: starts_with_iff)
  then have "line = 35 # 35 # 35 # post" by (simp add: lit_def)
  then show ?thesis by (simp add: heading_shape_def is_space_def)
qed

lemma extract_sections_shape:
  "extract_sections content name = Some b \<longleftrightarrow>
     name \<noteq> [] \<and>
     (\<exists>pre h body rest. split_nl content = pre @ h # body @ rest
        \<and> heading_shape h \<and> strip (drop 2 h) = name
        \<and> (\<forall>l\<in>set body. \<not> heading_shape l)
        \<and> (rest = [] \<or> heading_shape (hd rest))
        \<and> (\<forall>l\<in>set rest. heading_shape l \<longrightarrow> strip (drop 2 l) \<noteq> name)
        \<and> b = join_nl body)"
proof -
  have hn: "header_name l = (if heading_shape l then Some (strip (drop 2 l)) else None)"
    if "l \<in> set (split_nl content)" for l
    using that by (intro header_name_shape split_nl_no_NL)
  have eq: "(split_nl content = pre @ h # body @ rest
        \<and> header_name h = Some name
        \<and> (\<forall>l\<in>set body. header_name l = None)
        \<and> (rest = [] \<or> header_name (hd rest) \<noteq> None)
        \<and> (\<forall>l\<in>set rest. header_name l \<noteq> Some name)
        \<and> b = join_nl body)
     \<longleftrightarrow> (split_nl content = pre @ h # body @ rest
        \<and> heading_shape h \<and> strip (drop 2 h) = name
        \<and> (\<forall>l\<in>set body. \<not> heading_shape l)
        \<and> (rest = [] \<or> heading_shape (hd rest))
        \<and> (\<forall>l\<in>set rest. heading_shape l \<longrightarrow> strip (drop 2 l) \<noteq> name)
        \<and> b = join_nl body)" for pre h body rest
  proof (cases "split_nl content = pre @ h # body @ rest")
    case False
    then show ?thesis by simp
  next
    case True
    have h: "header_name h = (if heading_shape h then Some (strip (drop 2 h)) else None)"
      using True by (intro hn) simp
    have body: "header_name l = (if heading_shape l then Some (strip (drop 2 l)) else None)"
      if "l \<in> set body" for l using True that by (intro hn) simp
    have rest: "header_name l = (if heading_shape l then Some (strip (drop 2 l)) else None)"
      if "l \<in> set rest" for l using True that by (intro hn) simp
    have a: "header_name h = Some name \<longleftrightarrow> heading_shape h \<and> strip (drop 2 h) = name"
      using h by auto
    have b: "(\<forall>l\<in>set body. header_name l = None) \<longleftrightarrow> (\<forall>l\<in>set body. \<not> heading_shape l)"
      using body by auto
    have c: "(rest = [] \<or> header_name (hd rest) \<noteq> None) \<longleftrightarrow> (rest = [] \<or> heading_shape (hd rest))"
    proof (cases rest)
      case Nil
      then show ?thesis by simp
    next
      case (Cons r rs)
      then show ?thesis using rest[of r] by simp
    qed
    have d: "(\<forall>l\<in>set rest. header_name l \<noteq> Some name)
        \<longleftrightarrow> (\<forall>l\<in>set rest. heading_shape l \<longrightarrow> strip (drop 2 l) \<noteq> name)"
      using rest by auto
    show ?thesis unfolding a b c d by (simp only: conj_assoc)
  qed
  show ?thesis unfolding extract_sections_header_name eq ..
qed

text \<open>
  C5 (amended). A line of the input text is a heading line, one the pattern of the
  extractor matches, exactly when it is two heading markers, a white-space character
  and at least one more character; its name is the rest of the line after the two
  markers, trimmed. A line that begins with three heading markers is never a heading
  line. The section map binds a name to a body exactly when the name is not empty, some
  heading line has this name, and the body is the lines after the last heading line of
  this name up to the next heading line or the end of the text, joined by line feeds.
  So every heading line ends the section before it; the lines between two heading
  lines, those beginning with three heading markers among them, are the body of the
  section the first one opens; and a heading line whose name is empty, such as
  \<^verbatim>\<open>"##  "\<close>, opens no section: the lines after it, up to the next heading line, are in
  no body.
\<close>

theorem header_line:
  "(\<forall>line\<in>set (split_nl content).
      (header_name line \<noteq> None \<longleftrightarrow> heading_shape line)
      \<and> (heading_shape line \<longrightarrow> header_name line = Some (strip (drop 2 line)))
      \<and> (starts_with (lit ''###'') line \<longrightarrow> \<not> heading_shape line))
   \<and> (\<forall>name b. extract_sections content name = Some b \<longleftrightarrow>
        name \<noteq> [] \<and>
        (\<exists>pre h body rest. split_nl content = pre @ h # body @ rest
           \<and> heading_shape h \<and> strip (drop 2 h) = name
           \<and> (\<forall>l\<in>set body. \<not> heading_shape l)
           \<and> (rest = [] \<or> heading_shape (hd rest))
           \<and> (\<forall>l\<in>set rest. heading_shape l \<longrightarrow> strip (drop 2 l) \<noteq> name)
           \<and> b = join_nl body))"
proof -
  have "(header_name line \<noteq> None \<longleftrightarrow> heading_shape line)
      \<and> (heading_shape line \<longrightarrow> header_name line = Some (strip (drop 2 line)))
      \<and> (starts_with (lit ''###'') line \<longrightarrow> \<not> heading_shape line)"
    if "line \<in> set (split_nl content)" for line
    using header_name_shape[OF split_nl_no_NL[OF that]] hashes_no_shape[of line] by simp
  then show ?thesis using extract_sections_shape[of content] by blast
qed

text \<open>
  A text with a line of three heading markers inside a section and a heading line with
  an empty name after it.
\<close>

theorem header_line_witness:
  "extract_sections (lit ''## A\<newline>### B\<newline>x\<newline>##  \<newline>y'') (lit ''A'') = Some (lit ''### B\<newline>x'')
   \<and> header_name (lit ''### B'') = None
   \<and> header_name (lit ''##  '') = Some []"
proof -
  let ?c = "lit ''## A\<newline>### B\<newline>x\<newline>##  \<newline>y''"
  note hl = header_line[of ?c]
  have sp: "split_nl ?c = [lit ''## A'', lit ''### B'', lit ''x'', lit ''##  '', lit ''y'']"
    by (simp add: lit_def NL_def split_nl_def)
  have sA: "heading_shape (lit ''## A'')" and nA: "strip (drop 2 (lit ''## A'')) = lit ''A''"
    and sB: "\<not> heading_shape (lit ''### B'')" and sx: "\<not> heading_shape (lit ''x'')"
    and sE: "heading_shape (lit ''##  '')" and nE: "strip (drop 2 (lit ''##  '')) = []"
    and sy: "\<not> heading_shape (lit ''y'')"
    by (simp_all add: heading_shape_def lit_def starts_with_def is_space_def strip_def)
  have "split_nl ?c = [] @ lit ''## A'' # [lit ''### B'', lit ''x''] @ [lit ''##  '', lit ''y'']
      \<and> heading_shape (lit ''## A'') \<and> strip (drop 2 (lit ''## A'')) = lit ''A''
      \<and> (\<forall>l\<in>set [lit ''### B'', lit ''x'']. \<not> heading_shape l)
      \<and> ([lit ''##  '', lit ''y''] = [] \<or> heading_shape (hd [lit ''##  '', lit ''y'']))
      \<and> (\<forall>l\<in>set [lit ''##  '', lit ''y'']. heading_shape l \<longrightarrow> strip (drop 2 l) \<noteq> lit ''A'')
      \<and> lit ''### B\<newline>x'' = join_nl [lit ''### B'', lit ''x'']"
    using sp sA nA sB sx sE nE sy by (simp add: lit_def NL_def)
  then have ex: "\<exists>pre h body rest. split_nl ?c = pre @ h # body @ rest
      \<and> heading_shape h \<and> strip (drop 2 h) = lit ''A''
      \<and> (\<forall>l\<in>set body. \<not> heading_shape l)
      \<and> (rest = [] \<or> heading_shape (hd rest))
      \<and> (\<forall>l\<in>set rest. heading_shape l \<longrightarrow> strip (drop 2 l) \<noteq> lit ''A'')
      \<and> lit ''### B\<newline>x'' = join_nl body"
    by blast
  have neA: "lit ''A'' \<noteq> []" by (simp add: lit_def)
  have a: "extract_sections ?c (lit ''A'') = Some (lit ''### B\<newline>x'')"
    using hl[THEN conjunct2, THEN spec, THEN spec, of "lit ''A''" "lit ''### B\<newline>x''"] neA ex
    by blast
  have mB: "lit ''### B'' \<in> set (split_nl ?c)" and mE: "lit ''##  '' \<in> set (split_nl ?c)"
    unfolding sp by simp_all
  have b: "header_name (lit ''### B'') = None"
    using hl[THEN conjunct1, THEN bspec, OF mB] sB by blast
  have c: "header_name (lit ''##  '') = Some []"
    using hl[THEN conjunct1, THEN bspec, OF mE] sE nE by simp
  from a b c show ?thesis by blast
qed

text \<open>
  C5 as stated fails at the line \<^verbatim>\<open>"##  "\<close>: it is two heading markers, white space and
  a non-empty rest, but no section has its trimmed rest as name, the line after it is in
  no section, and the line itself is not body text of the section \<^verbatim>\<open>A\<close> either.
\<close>

theorem header_line_blank_title_counterexample:
  "heading_shape (lit ''##  '')
   \<and> strip (drop 2 (lit ''##  '')) = []
   \<and> extract_sections (lit ''## A\<newline>x\<newline>##  \<newline>y'') = [lit ''A'' \<mapsto> lit ''x'']"
  by (simp add: eval_defs heading_shape_def)

section \<open>The Role field\<close>

lemma contains_take_iff:
  "contains p (take n s) \<longleftrightarrow> (\<exists>pre post. s = pre @ p @ post \<and> length pre + length p \<le> n)"
proof
  assume "contains p (take n s)"
  then obtain pre post where eq: "take n s = pre @ p @ post"
    by (auto simp: contains_iff)
  have "length (take n s) \<le> n" by simp
  with eq have len: "length pre + length p \<le> n" by simp
  have "s = take n s @ drop n s" by simp
  with eq have "s = pre @ p @ (post @ drop n s)" by simp
  with len show "\<exists>pre post. s = pre @ p @ post \<and> length pre + length p \<le> n" by blast
next
  assume "\<exists>pre post. s = pre @ p @ post \<and> length pre + length p \<le> n"
  then obtain pre post where s: "s = pre @ p @ post" and len: "length pre + length p \<le> n"
    by blast
  have "take n s = pre @ p @ take (n - length pre - length p) post"
    using len unfolding s by simp
  then show "contains p (take n s)" unfolding contains_iff by blast
qed

text \<open>
  C6. The Role check emits no error when the label \<^verbatim>\<open>**Role**:\<close> (nine characters)
  occurs with its last character among the first 500 characters of the text, and
  exactly one \<^verbatim>\<open>MISSING_FIELD\<close> error otherwise: an occurrence that ends beyond the
  first 500 characters does not prevent the error.
\<close>

theorem role_field_window:
  "check_role_field fname content =
     (if \<exists>pre post. content = pre @ lit ''**Role**:'' @ post \<and> length pre + 9 \<le> 500
      then []
      else [\<lparr>filename = fname, error_type = lit ''MISSING_FIELD'',
             details = lit ''Required field '**Role:**' not found near the top of the file''\<rparr>])"
proof -
  have "length (lit ''**Role**:'') = 9" by (simp add: lit_def)
  then show ?thesis
    unfolding check_role_field_def contains_take_iff by simp
qed

theorem role_field_window_witness:
  "check_role_field (lit ''a.md'') (lit ''**Role**: x'') = []
   \<and> check_role_field (lit ''a.md'') (replicate 500 120 @ lit ''**Role**:'') =
       [\<lparr>filename = lit ''a.md'', error_type = lit ''MISSING_FIELD'',
         details = lit ''Required field '**Role:**' not found near the top of the file''\<rparr>]"
proof -
  have "lit ''**Role**: x'' = [] @ lit ''**Role**:'' @ lit '' x'' \<and> length ([]::nat list) + 9 \<le> 500"
    by (simp add: lit_def)
  then have "\<exists>pre post. lit ''**Role**: x'' = pre @ lit ''**Role**:'' @ post \<and> length pre + 9 \<le> 500"
    by blast
  then have a: "check_role_field (lit ''a.md'') (lit ''**Role**: x'') = []"
    using role_field_window[of "lit ''a.md''" "lit ''**Role**: x''"] by simp
  have "\<not> (\<exists>pre post. replicate 500 120 @ lit ''**Role**:'' = pre @ lit ''**Role**:'' @ post
      \<and> length pre + 9 \<le> 500)"
  proof
    assume "\<exists>pre post. replicate 500 120 @ lit ''**Role**:'' = pre @ lit ''**Role**:'' @ post
      \<and> length pre + 9 \<le> 500"
    then obtain pre post where eq: "replicate 500 120 @ lit ''**Role**:'' = pre @ lit ''**Role**:'' @ post"
      and len: "length pre + 9 \<le> 500" by blast
    have "(replicate 500 120 @ lit ''**Role**:'') ! length pre = (120::nat)"
      using len by (simp add: nth_append)
    moreover have "(pre @ lit ''**Role**:'' @ post) ! length pre = (42::nat)"
      by (simp add: lit_def)
    ultimately show False using eq by simp
  qed
  then have b: "check_role_field (lit ''a.md'') (replicate 500 120 @ lit ''**Role**:'') =
       [\<lparr>filename = lit ''a.md'', error_type = lit ''MISSING_FIELD'',
         details = lit ''Required field '**Role:**' not found near the top of the file''\<rparr>]"
    using role_field_window[of "lit ''a.md''" "replicate 500 120 @ lit ''**Role**:''"] by simp
  from a b show ?thesis by blast
qed

section \<open>The run\<close>

lemma errors_print: "errors (print l v) = errors v"
  by (simp add: print_def)

lemma file_errors_eq:
  "file_errors f =
     (case read_text f of
        Inl e \<Rightarrow> [\<lparr>filename = file_name f, error_type = lit ''READ_ERROR'',
                    details = lit ''Failed to read file: '' @ e\<rparr>]
      | Inr content \<Rightarrow> validate_content (file_name f) content)"
  by (simp add: file_errors_def validate_file_def Let_def errors_print split: sum.splits)

lemma validate_file_errors: "errors (validate_file f v) = errors v @ file_errors f"
  by (simp add: file_errors_eq validate_file_def Let_def errors_print split: sum.splits)

lemma fold_validate_file_errors:
  "errors (fold validate_file fs v) = errors v @ concat (map file_errors fs)"
  by (induction fs arbitrary: v) (simp_all add: validate_file_errors)

lemma validate_all_errors:
  "errors (snd (validate_all d v)) =
     (if dir_exists d then errors v @ concat (map file_errors (sort_key file_name (agent_files d)))
      else errors v)"
  by (simp add: validate_all_def Let_def errors_print fold_validate_file_errors)

lemma validate_all_success:
  "fst (validate_all d v) \<longleftrightarrow> dir_exists d \<and> errors (snd (validate_all d v)) = []
     \<or> dir_exists d \<and> agent_files d = []"
  by (auto simp: validate_all_def Let_def errors_print)

lemma concat_sorted_empty:
  "concat (map g (sort_key k xs)) = [] \<longleftrightarrow> concat (map g xs) = []"
  by simp

lemma main_exit_code:
  "snd (main repo_root d) =
     (if dir_exists d \<and> concat (map file_errors (agent_files d)) = [] then 0 else 1)"
proof -
  let ?v = "print [] (print (lit ''Agents directory: '' @ dir_path d)
    (print (lit ''Repository root: '' @ repo_root) (print (replicate 70 61)
    (print (lit ''Agent Specification Validator'') \<lparr>errors = [], stdout = []\<rparr>))))"
  have e: "errors ?v = []" by (simp add: errors_print)
  have "snd (main repo_root d) = (if fst (validate_all d ?v) then 0 else 1)"
    by (simp add: main_def Let_def split: prod.splits)
  also have "fst (validate_all d ?v) \<longleftrightarrow>
      dir_exists d \<and> concat (map file_errors (agent_files d)) = []"
    unfolding validate_all_success validate_all_errors e by auto
  finally show ?thesis .
qed

text \<open>
  C7. The exit code is 0 exactly when the directory exists and the files of the run
  yield no error at all, which includes the run with no file; it is 1 otherwise. When
  the directory does not exist, the run prints its one error line and validates no
  file: the errors of the validator are what they were.
\<close>

theorem exit_code:
  "(snd (main repo_root d) = 0 \<longleftrightarrow>
      dir_exists d \<and> length (concat (map file_errors (agent_files d))) = 0)
   \<and> (snd (main repo_root d) = 0 \<or> snd (main repo_root d) = 1)
   \<and> (dir_exists d \<and> agent_files d = [] \<longrightarrow> snd (main repo_root d) = 0)
   \<and> (\<not> dir_exists d \<longrightarrow>
        snd (main repo_root d) = 1
        \<and> validate_all d v =
            (False, print ([10060] @ lit '' Error: Directory '' @ dir_path d
                           @ lit '' does not exist'') v))"
  by (simp add: main_exit_code validate_all_def)

theorem exit_code_witness:
  "snd (main (lit ''/r'') \<lparr>dir_path = lit ''/r/docs/agents'', dir_exists = True,
      glob_md = [\<lparr>file_name = lit ''README.md'', read_text = Inr []\<rparr>]\<rparr>) = 0
   \<and> snd (main (lit ''/r'') \<lparr>dir_path = lit ''/r/docs/agents'', dir_exists = False,
      glob_md = []\<rparr>) = 1
   \<and> snd (main (lit ''/r'') \<lparr>dir_path = lit ''/r/docs/agents'', dir_exists = True,
      glob_md = [\<lparr>file_name = lit ''a.md'', read_text = Inl (lit ''boom'')\<rparr>]\<rparr>) = 1"
proof -
  let ?d1 = "\<lparr>dir_path = lit ''/r/docs/agents'', dir_exists = True,
      glob_md = [\<lparr>file_name = lit ''README.md'', read_text = Inr []\<rparr>]\<rparr>"
  let ?d2 = "\<lparr>dir_path = lit ''/r/docs/agents'', dir_exists = False, glob_md = []\<rparr>"
  let ?d3 = "\<lparr>dir_path = lit ''/r/docs/agents'', dir_exists = True,
      glob_md = [\<lparr>file_name = lit ''a.md'', read_text = Inl (lit ''boom'')\<rparr>]\<rparr>"
  have a1: "agent_files ?d1 = []" by (simp add: agent_files_def)
  have 1: "snd (main (lit ''/r'') ?d1) = 0"
    using exit_code[of "lit ''/r''" ?d1 "\<lparr>errors = [], stdout = []\<rparr>", THEN conjunct1] a1
    by simp
  have 2: "snd (main (lit ''/r'') ?d2) = 1"
    using exit_code[of "lit ''/r''" ?d2 "\<lparr>errors = [], stdout = []\<rparr>",
        THEN conjunct2, THEN conjunct2, THEN conjunct2]
    by simp
  have a3: "agent_files ?d3 = [\<lparr>file_name = lit ''a.md'', read_text = Inl (lit ''boom'')\<rparr>]"
    by (simp add: agent_files_def lit_def)
  have "length (concat (map file_errors (agent_files ?d3))) \<noteq> 0"
    unfolding a3 by (simp add: file_errors_eq)
  then have "snd (main (lit ''/r'') ?d3) \<noteq> 0"
    using exit_code[of "lit ''/r''" ?d3 "\<lparr>errors = [], stdout = []\<rparr>", THEN conjunct1]
    by blast
  then have 3: "snd (main (lit ''/r'') ?d3) = 1"
    using exit_code[of "lit ''/r''" ?d3 "\<lparr>errors = [], stdout = []\<rparr>",
        THEN conjunct2, THEN conjunct1]
    by auto
  from 1 2 3 show ?thesis by blast
qed

text \<open>
  C8. A file whose text cannot be read contributes exactly one error, of kind
  \<^verbatim>\<open>READ_ERROR\<close>, and none of the checks on a text; the run goes on: its errors are
  those of all its files in the order of their names, and a file that is read
  contributes what the five checks find in its text, whatever the other files are.
\<close>

theorem read_error:
  assumes "read_text f = Inl msg"
  shows "file_errors f =
           [\<lparr>filename = file_name f, error_type = lit ''READ_ERROR'',
             details = lit ''Failed to read file: '' @ msg\<rparr>]
       \<and> (dir_exists d \<longrightarrow>
            errors (snd (validate_all d v)) =
              errors v @ concat (map file_errors (sort_key file_name (agent_files d))))
       \<and> (read_text g = Inr content \<longrightarrow> file_errors g = validate_content (file_name g) content)"
  using assms by (simp add: file_errors_eq validate_all_errors)

theorem read_error_witness:
  "errors (snd (validate_all
      \<lparr>dir_path = lit ''d'', dir_exists = True,
        glob_md = [\<lparr>file_name = lit ''b.md'', read_text = Inl (lit ''boom'')\<rparr>,
                   \<lparr>file_name = lit ''a.md'', read_text = Inl (lit ''bang'')\<rparr>]\<rparr>
      \<lparr>errors = [], stdout = []\<rparr>)) =
     [\<lparr>filename = lit ''a.md'', error_type = lit ''READ_ERROR'',
       details = lit ''Failed to read file: bang''\<rparr>,
      \<lparr>filename = lit ''b.md'', error_type = lit ''READ_ERROR'',
       details = lit ''Failed to read file: boom''\<rparr>]"
proof -
  let ?a = "\<lparr>file_name = lit ''a.md'', read_text = Inl (lit ''bang'')\<rparr>"
  let ?b = "\<lparr>file_name = lit ''b.md'', read_text = Inl (lit ''boom'')\<rparr>"
  let ?d = "\<lparr>dir_path = lit ''d'', dir_exists = True, glob_md = [?b, ?a]\<rparr>"
  have ra: "read_text ?a = Inl (lit ''bang'')" and rb: "read_text ?b = Inl (lit ''boom'')"
    by simp_all
  note ha = read_error[OF ra, of ?d "\<lparr>errors = [], stdout = []\<rparr>" ?a "[]"]
  note hb = read_error[OF rb, of ?d "\<lparr>errors = [], stdout = []\<rparr>" ?a "[]"]
  have af: "agent_files ?d = [?b, ?a]" by (simp add: agent_files_def lit_def)
  have so: "sort_key file_name [?b, ?a] = [?a, ?b]" by (simp add: lit_def)
  from ha hb show ?thesis unfolding af so by (simp add: lit_def)
qed

section \<open>Telemetry events\<close>

lemma backtick_not_name: "\<not> is_name_char 96" and dot_not_name: "\<not> is_name_char 46"
  by (simp_all add: is_name_char_def)

lemma lit_agent: "lit ''`agent.'' = [96, 97, 103, 101, 110, 116, 46]"
  and lit_dot: "lit ''.'' = [46]"
  by (simp_all add: lit_def)

lemma takeWhile_run:
  "list_all P t \<Longrightarrow> \<not> P x \<Longrightarrow> takeWhile P (t @ x # rest) = t"
  by (induction t) simp_all

lemma len_agent: "length (lit ''`agent.'') = 7"
  by (simp add: lit_def)

lemma drop_agent: "drop (7 + length t) (lit ''`agent.'' @ t @ x) = x"
proof -
  have "length (lit ''`agent.'' @ t) = 7 + length t" by (simp add: len_agent)
  then have "drop (7 + length t) ((lit ''`agent.'' @ t) @ x) = x"
    by (metis append_eq_conv_conj)
  then show ?thesis by simp
qed

lemma event_at_occ:
  assumes "t \<noteq> []" and "list_all is_name_char t"
  shows "event_at (lit ''`agent.'' @ t @ lit ''.'' @ rest) = Some t"
proof -
  have tw: "takeWhile is_name_char (t @ 46 # rest) = t"
    using assms(2) dot_not_name by (rule takeWhile_run)
  have sw: "starts_with (lit ''`agent.'') (lit ''`agent.'' @ t @ lit ''.'' @ rest)"
    by (simp add: starts_with_def)
  have d7: "drop 7 (lit ''`agent.'' @ t @ lit ''.'' @ rest) = t @ 46 # rest"
    using len_agent by (simp add: lit_dot)
  have dt: "drop (7 + length t) (lit ''`agent.'' @ t @ lit ''.'' @ rest) = lit ''.'' @ rest"
    by (rule drop_agent)
  have sd: "starts_with (lit ''.'') (lit ''.'' @ rest)" by (simp add: starts_with_def)
  show ?thesis
    unfolding event_at_def Let_def d7 tw dt using sw sd assms(1) by simp
qed

lemma event_at_Some:
  assumes "event_at s = Some t"
  shows "t \<noteq> [] \<and> list_all is_name_char t \<and> s = lit ''`agent.'' @ t @ lit ''.'' @ drop (8 + length t) s"
proof -
  from assms have sw: "starts_with (lit ''`agent.'') s"
    and t: "t = takeWhile is_name_char (drop 7 s)" and ne: "t \<noteq> []"
    and dot: "starts_with (lit ''.'') (drop (7 + length t) s)"
    by (auto simp: event_at_def Let_def split: if_splits)
  from sw have s1: "s = lit ''`agent.'' @ drop 7 s"
    by (auto simp: starts_with_iff lit_agent)
  have s2: "drop 7 s = t @ drop (length t) (drop 7 s)"
    unfolding t by (metis takeWhile_dropWhile_id dropWhile_eq_drop)
  from dot have "take 1 (drop (7 + length t) s) = lit ''.''"
    by (simp add: starts_with_def lit_dot)
  then have s3: "drop (7 + length t) s = lit ''.'' @ drop 1 (drop (7 + length t) s)"
    by (metis append_take_drop_id)
  have "drop (length t) (drop 7 s) = drop (7 + length t) s" by (simp add: add.commute)
  with s2 s3 have "drop 7 s = t @ lit ''.'' @ drop (8 + length t) s"
    by (simp add: add.commute)
  with s1 have "s = lit ''`agent.'' @ t @ lit ''.'' @ drop (8 + length t) s" by simp
  moreover have "list_all is_name_char t"
    unfolding t list_all_iff by (auto dest: set_takeWhileD)
  ultimately show ?thesis using ne by blast
qed

lemma token_occurs_iff:
  "token_occurs t s \<longleftrightarrow>
     t \<noteq> [] \<and> list_all is_name_char t \<and> (\<exists>pre post. s = pre @ lit ''`agent.'' @ t @ lit ''.'' @ post)"
  by (simp add: token_occurs_def contains_iff)

lemma token_occurs_suffix: "token_occurs t s \<Longrightarrow> token_occurs t (pre @ s)"
proof -
  assume "token_occurs t s"
  then obtain p q where "t \<noteq> []" "list_all is_name_char t"
    and "s = p @ lit ''`agent.'' @ t @ lit ''.'' @ q"
    unfolding token_occurs_iff by blast
  then have "pre @ s = (pre @ p) @ lit ''`agent.'' @ t @ lit ''.'' @ q" by simp
  with \<open>t \<noteq> []\<close> \<open>list_all is_name_char t\<close> show ?thesis
    unfolding token_occurs_iff by blast
qed

lemma findall_events_sound: "t \<in> set (findall_events s) \<Longrightarrow> token_occurs t s"
proof (induction s rule: findall_events.induct)
  case 1
  then show ?case by simp
next
  case (2 c cs)
  show ?case
  proof (cases "event_at (c # cs)")
    case None
    with 2 have "token_occurs t cs" by simp
    then show ?thesis using token_occurs_suffix[of t cs "[c]"] by simp
  next
    case (Some u)
    note ev = event_at_Some[OF Some]
    from 2 Some have "t = u \<or> t \<in> set (findall_events (drop (7 + length u) cs))" by simp
    then show ?thesis
    proof
      assume "t = u"
      with ev have "t \<noteq> []" "list_all is_name_char t"
        and "c # cs = [] @ lit ''`agent.'' @ t @ lit ''.'' @ drop (8 + length t) (c # cs)"
        by simp_all
      then show ?thesis unfolding token_occurs_iff by blast
    next
      assume "t \<in> set (findall_events (drop (7 + length u) cs))"
      with 2 Some have "token_occurs t (drop (7 + length u) cs)" by simp
      then have "token_occurs t (take (7 + length u) cs @ drop (7 + length u) cs)"
        by (rule token_occurs_suffix)
      then have "token_occurs t cs" by simp
      then show ?thesis using token_occurs_suffix[of t cs "[c]"] by simp
    qed
  qed
qed

lemma skip_match:
  assumes eq: "m @ rest = pre @ x # zs" and pre: "pre \<noteq> []" and x: "x \<notin> set (tl m)"
  shows "\<exists>pre'. rest = pre' @ x # zs"
proof -
  from eq consider us where "m = pre @ us" "us @ rest = x # zs"
    | us where "m @ us = pre" "rest = us @ x # zs"
    by (auto simp: append_eq_append_conv2)
  then show ?thesis
  proof cases
    case 1
    show ?thesis
    proof (cases us)
      case Nil
      with 1 have "rest = [] @ x # zs" by simp
      then show ?thesis by blast
    next
      case (Cons y ys)
      with 1 have "m = pre @ x # ys" by simp
      with pre have "x \<in> set (tl m)" by (cases pre) auto
      with x show ?thesis by simp
    qed
  next
    case 2
    then show ?thesis by blast
  qed
qed

lemma findall_events_complete: "token_occurs t s \<Longrightarrow> t \<in> set (findall_events s)"
proof (induction s rule: findall_events.induct)
  case 1
  then show ?case by (simp add: token_occurs_def lit_def)
next
  case (2 c cs)
  from "2.prems" obtain pre post where t: "t \<noteq> []" "list_all is_name_char t"
    and eq: "c # cs = pre @ lit ''`agent.'' @ t @ lit ''.'' @ post"
    unfolding token_occurs_iff by blast
  show ?case
  proof (cases "event_at (c # cs)")
    case None
    have "pre \<noteq> []"
    proof
      assume "pre = []"
      with eq event_at_occ[OF t, of post] None show False by simp
    qed
    then obtain pre' where "pre = c # pre'" using eq by (cases pre) auto
    with eq have "cs = pre' @ lit ''`agent.'' @ t @ lit ''.'' @ post" by simp
    with t have "token_occurs t cs" unfolding token_occurs_iff by blast
    with "2.IH" None show ?thesis by simp
  next
    case (Some u)
    note ev = event_at_Some[OF Some]
    show ?thesis
    proof (cases pre)
      case Nil
      with eq event_at_occ[OF t, of post] Some have "u = t" by simp
      with Some show ?thesis by simp
    next
      case (Cons a pre')
      let ?m = "lit ''`agent.'' @ u @ lit ''.''"
      let ?rest = "drop (8 + length u) (c # cs)"
      have "?m @ ?rest = c # cs"
        using ev[THEN conjunct2, THEN conjunct2, symmetric] by (simp only: append_assoc)
      also have "c # cs = pre @ lit ''`agent.'' @ t @ lit ''.'' @ post" by (rule eq)
      also have "\<dots> = pre @ 96 # (tl (lit ''`agent.'') @ t @ lit ''.'' @ post)"
        by (simp add: lit_agent)
      finally have m: "?m @ ?rest = pre @ 96 # (tl (lit ''`agent.'') @ t @ lit ''.'' @ post)" .
      have "96 \<notin> set u" using ev backtick_not_name by (auto simp: list_all_iff)
      then have "96 \<notin> set (tl ?m)" by (simp add: lit_agent lit_dot)
      with m Cons obtain p where "?rest = p @ 96 # (tl (lit ''`agent.'') @ t @ lit ''.'' @ post)"
        using skip_match[of ?m ?rest pre 96] by blast
      then have "?rest = p @ lit ''`agent.'' @ t @ lit ''.'' @ post" by (simp add: lit_agent)
      with t have "token_occurs t ?rest" unfolding token_occurs_iff by blast
      moreover have "?rest = drop (7 + length u) cs" by (simp add: drop_Cons')
      ultimately have "t \<in> set (findall_events (drop (7 + length u) cs))"
        using "2.IH" Some by simp
      with Some show ?thesis by simp
    qed
  qed
qed

lemma findall_events_set: "set (findall_events s) = {t. token_occurs t s}"
  using findall_events_sound findall_events_complete by blast



lemma check_telemetry_events_eq:
  "check_telemetry_events fname content =
     (case section_search (lit ''### Events to Track'') [NL # lit ''###'', NL # lit ''##''] content of
        None \<Rightarrow> []
      | Some body \<Rightarrow>
          if (\<exists>t. token_occurs t body) \<and> \<not> token_occurs (stem fname) body
          then [\<lparr>filename = fname, error_type = lit ''TELEMETRY_NAMING'',
                 details = lit ''Telemetry events should follow pattern `agent.''
                   @ stem fname @ lit ''.*`''\<rparr>]
          else [])"
proof -
  have a: "findall_events body \<noteq> [] \<longleftrightarrow> (\<exists>t. token_occurs t body)" for body
    using findall_events_set[of body] by (cases "findall_events body") auto
  have b: "filter (\<lambda>e. e = n) (findall_events body) = [] \<longleftrightarrow> \<not> token_occurs n body" for n body
    using findall_events_set[of body] by (auto simp: filter_empty_conv)
  show ?thesis
    unfolding check_telemetry_events_def Let_def a b
    by (simp split: option.splits)
qed

section \<open>The body a search captures\<close>






section \<open>Telemetry events: the check\<close>




text \<open>
  C10 (amended). For every document whose identity, the stem of its file name, contains
  a character that is neither a lowercase letter nor a hyphen: if the search for the
  heading text \<^verbatim>\<open>### Events to Track\<close> captures a body, and in this body some token
  \<open>t\<close> of one or more lowercase letters and hyphens stands between a backtick followed
  by \<^verbatim>\<open>agent.\<close> and a dot, then the telemetry check emits exactly one
  \<^verbatim>\<open>TELEMETRY_NAMING\<close> error.
\<close>

theorem telemetry_foreign_identity:
  assumes "\<exists>c\<in>set (stem fname). \<not> is_name_char c"
    and "section_search (lit ''### Events to Track'') [NL # lit ''###'', NL # lit ''##''] content
           = Some body"
    and "token_occurs t body"
  shows "check_telemetry_events fname content =
     [\<lparr>filename = fname, error_type = lit ''TELEMETRY_NAMING'',
       details = lit ''Telemetry events should follow pattern `agent.'' @ stem fname @ lit ''.*`''\<rparr>]"
proof -
  from assms(1) have "\<not> list_all is_name_char (stem fname)" by (simp add: list_all_iff)
  then have n: "\<not> token_occurs (stem fname) body" by (simp add: token_occurs_def)
  from assms(3) have e: "\<exists>t. token_occurs t body"
    by (rule exI[where P = "\<lambda>t. token_occurs t body"])
  show ?thesis unfolding check_telemetry_events_eq assms(2) using n e by simp
qed

theorem telemetry_foreign_identity_witness:
  "check_telemetry_events (lit ''My_Agent.md'')
     (lit ''### Events to Track\<newline>- `agent.my-agent.started`\<newline>'') =
     [\<lparr>filename = lit ''My_Agent.md'', error_type = lit ''TELEMETRY_NAMING'',
       details = lit ''Telemetry events should follow pattern `agent.My_Agent.*`''\<rparr>]"
proof -
  let ?c = "lit ''### Events to Track\<newline>- `agent.my-agent.started`\<newline>''"
  let ?b = "lit ''- `agent.my-agent.started`\<newline>''"
  have s: "section_search (lit ''### Events to Track'') [NL # lit ''###'', NL # lit ''##''] ?c = Some ?b"
    by (simp add: section_at_def lazy_dot_plus_def lookahead_def starts_with_def lit_def NL_def
        is_space_def)
  have st: "stem (lit ''My_Agent.md'') = lit ''My_Agent''"
    by (simp add: stem_def lit_def Let_def)
  have "77 \<in> set (lit ''My_Agent'') \<and> \<not> is_name_char 77"
    by (simp add: lit_def is_name_char_def)
  then have a: "\<exists>c\<in>set (stem (lit ''My_Agent.md'')). \<not> is_name_char c"
    unfolding st by (intro bexI[where P = "\<lambda>c. \<not> is_name_char c" and x = 77]) simp_all
  have o: "token_occurs (lit ''my-agent'') ?b"
    by (simp add: token_occurs_def lit_def starts_with_def is_name_char_def)
  have d: "lit ''Telemetry events should follow pattern `agent.'' @ lit ''My_Agent'' @ lit ''.*`''
      = lit ''Telemetry events should follow pattern `agent.My_Agent.*`''"
    by (simp add: lit_def)
  show ?thesis
    using telemetry_foreign_identity[OF a s o] unfolding st d .
qed

text \<open>
  C10 as stated fails: without a backtick in front of it, the event is not collected,
  and the check emits nothing although the identity has an uppercase letter.
\<close>

theorem telemetry_foreign_identity_counterexample:
  "stem (lit ''My_Agent.md'') = lit ''My_Agent''
   \<and> \<not> is_name_char (hd (lit ''My_Agent''))
   \<and> section_search (lit ''### Events to Track'') [NL # lit ''###'', NL # lit ''##'']
       (lit ''### Events to Track\<newline>- agent.my-agent.started\<newline>'')
     = Some (lit ''- agent.my-agent.started\<newline>'')
   \<and> contains (lit ''agent.my-agent.'') (lit ''- agent.my-agent.started\<newline>'')
   \<and> check_telemetry_events (lit ''My_Agent.md'')
        (lit ''### Events to Track\<newline>- agent.my-agent.started\<newline>'') = []"
proof -
  let ?c = "lit ''### Events to Track\<newline>- agent.my-agent.started\<newline>''"
  let ?b = "lit ''- agent.my-agent.started\<newline>''"
  have s: "section_search (lit ''### Events to Track'') [NL # lit ''###'', NL # lit ''##''] ?c = Some ?b"
    by (simp add: section_at_def lazy_dot_plus_def lookahead_def starts_with_def lit_def NL_def
        is_space_def)
  have st: "stem (lit ''My_Agent.md'') = lit ''My_Agent''"
    by (simp add: stem_def lit_def Let_def)
  have u: "\<not> is_name_char (hd (lit ''My_Agent''))"
    by (simp add: lit_def is_name_char_def)
  have co: "contains (lit ''agent.my-agent.'') ?b"
    by (simp add: lit_def starts_with_def)
  have "\<not> token_occurs t ?b" for t
    by (simp add: token_occurs_def lit_def starts_with_def)
  then have "check_telemetry_events (lit ''My_Agent.md'') ?c = []"
    using s by (simp add: check_telemetry_events_eq)
  with s st u co show ?thesis by (intro conjI)
qed

section \<open>The name of a document in its findings\<close>

lemma rfind_absent: "c \<notin> set ys \<Longrightarrow> rfind c ys = - 1"
  by (induction ys) (simp_all add: Let_def)

lemma rfind_last: "c \<notin> set ys \<Longrightarrow> rfind c (xs @ c # ys) = int (length xs)"
  by (induction xs) (simp_all add: Let_def rfind_absent)

lemma stem_ext:
  assumes "base \<noteq> []" and "ext \<noteq> []" and "46 \<notin> set ext"
  shows "stem (base @ 46 # ext) = base"
proof -
  have r: "rfind 46 (base @ 46 # ext) = int (length base)"
    using assms(3) by (rule rfind_last)
  have "0 < length base" and "0 < length ext" using assms by simp_all
  then show ?thesis unfolding stem_def r Let_def by simp
qed

lemma check_required_sections_name:
  "e \<in> set (check_required_sections fname secs) \<Longrightarrow>
   filename e = fname \<and> error_type e = lit ''MISSING_SECTION''"
  by (auto simp: check_required_sections_def split: if_splits)

lemma check_required_subsections_name:
  "e \<in> set (check_required_subsections fname content secs) \<Longrightarrow>
   filename e = fname \<and> error_type e = lit ''MISSING_SUBSECTION''"
  by (auto simp: check_required_subsections_def split: if_splits option.splits)

lemma check_ownership_fields_name:
  "e \<in> set (check_ownership_fields fname content) \<Longrightarrow>
   filename e = fname \<and> error_type e = lit ''MISSING_FIELD''"
  by (auto simp: check_ownership_fields_def split: if_splits option.splits)

lemma check_role_field_name:
  "e \<in> set (check_role_field fname content) \<Longrightarrow>
   filename e = fname \<and> error_type e = lit ''MISSING_FIELD''"
  by (auto simp: check_role_field_def split: if_splits)

lemma check_telemetry_events_name:
  "e \<in> set (check_telemetry_events fname content) \<Longrightarrow>
   filename e = fname \<and> error_type e = lit ''TELEMETRY_NAMING''"
  by (auto simp: check_telemetry_events_eq split: if_splits option.splits)

lemma error_types_differ:
  "lit ''MISSING_SECTION'' \<noteq> lit ''TELEMETRY_NAMING''"
  "lit ''MISSING_SUBSECTION'' \<noteq> lit ''TELEMETRY_NAMING''"
  "lit ''MISSING_FIELD'' \<noteq> lit ''TELEMETRY_NAMING''"
  by (simp_all add: lit_def)

lemma validate_content_name:
  assumes "e \<in> set (validate_content fname content)"
  shows "filename e = fname"
proof -
  from assms consider
      "e \<in> set (check_required_sections fname (extract_sections content))"
    | "e \<in> set (check_required_subsections fname content (extract_sections content))"
    | "e \<in> set (check_ownership_fields fname content)"
    | "e \<in> set (check_role_field fname content)"
    | "e \<in> set (check_telemetry_events fname content)"
    unfolding validate_content_def Let_def by auto
  then show ?thesis
  proof cases
    case 1 then show ?thesis by (simp add: check_required_sections_name)
  next
    case 2 then show ?thesis by (simp add: check_required_subsections_name)
  next
    case 3 then show ?thesis by (simp add: check_ownership_fields_name)
  next
    case 4 then show ?thesis by (simp add: check_role_field_name)
  next
    case 5 then show ?thesis by (simp add: check_telemetry_events_name)
  qed
qed

lemma validate_content_telemetry:
  "filter (\<lambda>e. error_type e = lit ''TELEMETRY_NAMING'') (validate_content fname content)
     = check_telemetry_events fname content"
proof -
  have a: "filter (\<lambda>e. error_type e = lit ''TELEMETRY_NAMING'')
      (check_required_sections fname secs) = []" for secs
    using check_required_sections_name[of _ fname secs] error_types_differ
    by (auto simp: filter_empty_conv)
  have b: "filter (\<lambda>e. error_type e = lit ''TELEMETRY_NAMING'')
      (check_required_subsections fname content secs) = []" for secs
    using check_required_subsections_name[of _ fname content secs] error_types_differ
    by (auto simp: filter_empty_conv)
  have c: "filter (\<lambda>e. error_type e = lit ''TELEMETRY_NAMING'')
      (check_ownership_fields fname content) = []"
    using check_ownership_fields_name[of _ fname content] error_types_differ
    by (auto simp: filter_empty_conv)
  have d: "filter (\<lambda>e. error_type e = lit ''TELEMETRY_NAMING'')
      (check_role_field fname content) = []"
    using check_role_field_name[of _ fname content] error_types_differ
    by (auto simp: filter_empty_conv)
  have e: "filter (\<lambda>e. error_type e = lit ''TELEMETRY_NAMING'')
      (check_telemetry_events fname content) = check_telemetry_events fname content"
    using check_telemetry_events_name[of _ fname content]
    by (auto simp: filter_id_conv)
  show ?thesis unfolding validate_content_def Let_def filter_append a b c d e by simp
qed

lemma fold_print:
  "stdout (fold (\<lambda>e. print (g e)) es v) = stdout v @ map g es
   \<and> errors (fold (\<lambda>e. print (g e)) es v) = errors v"
  by (induction es arbitrary: v) (simp_all add: print_def)

lemma stdout_print: "stdout (print l v) = stdout v @ [l]"
  by (simp add: print_def)

lemma print_summary_failures:
  assumes "errors v \<noteq> []"
  shows "stdout (print_summary v) =
     stdout v @ [[], replicate 70 61, lit ''VALIDATION FAILURES'', replicate 70 61]
       @ map str_of_error (errors v)
       @ [[], [10060] @ lit '' Validation failed with '' @ str_of_nat (length (errors v))
                @ lit '' error(s)'']"
  using assms unfolding print_summary_def Let_def
  by (simp add: fold_print errors_print stdout_print del: str_of_nat.simps)

text \<open>
  C3 (amended). Every finding of a document is reported under the file name of the
  document, extension included, and the summary prints a finding as the cross mark, a
  blank, this file name, a colon, the kind in brackets and the detail. The identity
  that telemetry tokens are compared against is another string, the stem of this file
  name: for a file name that is a non-empty base, a dot and a non-empty extension
  without a dot, the stem is the base, and it differs from the file name. The
  \<^verbatim>\<open>TELEMETRY_NAMING\<close> findings of a readable document are those of the telemetry check
  on its file name and text; when the body the check finds holds a token, the check is
  silent exactly if the stem of the file name is one of the tokens.
\<close>

theorem finding_identity:
  "(\<forall>e\<in>set (file_errors f).
      filename e = file_name f
      \<and> str_of_error e =
          [10060] @ lit '' '' @ file_name f @ lit '': ['' @ error_type e @ lit ''] '' @ details e)
   \<and> (errors v \<noteq> [] \<longrightarrow>
        stdout (print_summary v) =
          stdout v @ [[], replicate 70 61, lit ''VALIDATION FAILURES'', replicate 70 61]
            @ map str_of_error (errors v)
            @ [[], [10060] @ lit '' Validation failed with '' @ str_of_nat (length (errors v))
                     @ lit '' error(s)''])
   \<and> (read_text f = Inr content \<longrightarrow>
        filter (\<lambda>e. error_type e = lit ''TELEMETRY_NAMING'') (file_errors f)
          = check_telemetry_events (file_name f) content)
   \<and> (section_search (lit ''### Events to Track'') [NL # lit ''###'', NL # lit ''##''] content
          = Some body \<and> (\<exists>t. token_occurs t body) \<longrightarrow>
        (check_telemetry_events (file_name f) content = []
           \<longleftrightarrow> token_occurs (stem (file_name f)) body))
   \<and> (base \<noteq> [] \<and> ext \<noteq> [] \<and> 46 \<notin> set ext \<longrightarrow>
        stem (base @ 46 # ext) = base \<and> base @ 46 # ext \<noteq> base)"
proof -
  have a: "\<forall>e\<in>set (file_errors f).
      filename e = file_name f
      \<and> str_of_error e =
          [10060] @ lit '' '' @ file_name f @ lit '': ['' @ error_type e @ lit ''] '' @ details e"
  proof
    fix e assume e: "e \<in> set (file_errors f)"
    have "filename e = file_name f"
    proof (cases "read_text f")
      case (Inl m)
      with e show ?thesis by (simp add: file_errors_eq)
    next
      case (Inr c)
      with e have "e \<in> set (validate_content (file_name f) c)" by (simp add: file_errors_eq)
      then show ?thesis by (rule validate_content_name)
    qed
    then show "filename e = file_name f
      \<and> str_of_error e =
          [10060] @ lit '' '' @ file_name f @ lit '': ['' @ error_type e @ lit ''] '' @ details e"
      by (simp add: str_of_error_def)
  qed
  have b: "errors v \<noteq> [] \<longrightarrow>
        stdout (print_summary v) =
          stdout v @ [[], replicate 70 61, lit ''VALIDATION FAILURES'', replicate 70 61]
            @ map str_of_error (errors v)
            @ [[], [10060] @ lit '' Validation failed with '' @ str_of_nat (length (errors v))
                     @ lit '' error(s)'']"
    using print_summary_failures[of v] by (rule impI)
  have c: "read_text f = Inr content \<longrightarrow>
        filter (\<lambda>e. error_type e = lit ''TELEMETRY_NAMING'') (file_errors f)
          = check_telemetry_events (file_name f) content"
    by (simp add: file_errors_eq validate_content_telemetry)
  have d: "section_search (lit ''### Events to Track'') [NL # lit ''###'', NL # lit ''##''] content
          = Some body \<and> (\<exists>t. token_occurs t body) \<longrightarrow>
        (check_telemetry_events (file_name f) content = []
           \<longleftrightarrow> token_occurs (stem (file_name f)) body)"
    by (simp add: check_telemetry_events_eq)
  have e: "base \<noteq> [] \<and> ext \<noteq> [] \<and> 46 \<notin> set ext \<longrightarrow>
        stem (base @ 46 # ext) = base \<and> base @ 46 # ext \<noteq> base"
    by (simp add: stem_ext)
  show ?thesis by (intro conjI a b c d e)
qed

text \<open>
  A document \<^verbatim>\<open>myagent.md\<close> whose only event belongs to another agent: its finding is
  reported under \<^verbatim>\<open>myagent.md\<close>, and its tokens were compared with \<^verbatim>\<open>myagent\<close>.
\<close>

theorem finding_identity_witness:
  "filter (\<lambda>e. error_type e = lit ''TELEMETRY_NAMING'')
     (file_errors \<lparr>file_name = lit ''myagent.md'',
        read_text = Inr (lit ''### Events to Track\<newline>`agent.other.started`'')\<rparr>)
   = [\<lparr>filename = lit ''myagent.md'', error_type = lit ''TELEMETRY_NAMING'',
        details = lit ''Telemetry events should follow pattern `agent.myagent.*`''\<rparr>]
   \<and> stem (lit ''myagent.md'') = lit ''myagent''
   \<and> str_of_error \<lparr>filename = lit ''myagent.md'', error_type = lit ''TELEMETRY_NAMING'',
        details = lit ''Telemetry events should follow pattern `agent.myagent.*`''\<rparr>
     = [10060] @ lit '' myagent.md: [TELEMETRY_NAMING] Telemetry events should follow pattern `agent.myagent.*`''
   \<and> stdout (print_summary \<lparr>errors =
        [\<lparr>filename = lit ''myagent.md'', error_type = lit ''TELEMETRY_NAMING'',
          details = lit ''Telemetry events should follow pattern `agent.myagent.*`''\<rparr>],
        stdout = []\<rparr>)
     = [[], replicate 70 61, lit ''VALIDATION FAILURES'', replicate 70 61,
        [10060] @ lit '' myagent.md: [TELEMETRY_NAMING] Telemetry events should follow pattern `agent.myagent.*`'',
        [], [10060] @ lit '' Validation failed with 1 error(s)'']"
proof -
  let ?c = "lit ''### Events to Track\<newline>`agent.other.started`''"
  let ?b = "lit ''`agent.other.started`''"
  let ?f = "\<lparr>file_name = lit ''myagent.md'', read_text = Inr ?c\<rparr>"
  let ?e = "\<lparr>filename = lit ''myagent.md'', error_type = lit ''TELEMETRY_NAMING'',
        details = lit ''Telemetry events should follow pattern `agent.myagent.*`''\<rparr>"
  let ?v = "\<lparr>errors = [?e], stdout = []\<rparr>"
  note fi = finding_identity[of ?f ?v ?c ?b "lit ''myagent''" "lit ''md''"]
  have s: "section_search (lit ''### Events to Track'') [NL # lit ''###'', NL # lit ''##''] ?c = Some ?b"
    by (simp add: section_at_def lazy_dot_plus_def lookahead_def starts_with_def lit_def NL_def
        is_space_def)
  have "lit ''myagent'' \<noteq> [] \<and> lit ''md'' \<noteq> [] \<and> 46 \<notin> set (lit ''md'')"
    by (simp add: lit_def)
  with fi[THEN conjunct2, THEN conjunct2, THEN conjunct2, THEN conjunct2]
  have "stem (lit ''myagent'' @ 46 # lit ''md'') = lit ''myagent''" by (simp del: append.simps)
  moreover have "lit ''myagent'' @ 46 # lit ''md'' = lit ''myagent.md''" by (simp add: lit_def)
  ultimately have st: "stem (lit ''myagent.md'') = lit ''myagent''" by simp
  have o: "token_occurs (lit ''other'') ?b"
    by (simp add: token_occurs_def lit_def starts_with_def is_name_char_def)
  have ex: "\<exists>t. token_occurs t ?b"
    using o by (rule exI[where P = "\<lambda>t. token_occurs t ?b"])
  have m: "\<not> token_occurs (lit ''myagent'') ?b"
    by (simp add: token_occurs_def lit_def starts_with_def)
  have fn: "file_name ?f = lit ''myagent.md''" and rt: "read_text ?f = Inr ?c" by simp_all
  from s ex have "section_search (lit ''### Events to Track'') [NL # lit ''###'', NL # lit ''##''] ?c
      = Some ?b \<and> (\<exists>t. token_occurs t ?b)" by (rule conjI)
  with fi[THEN conjunct2, THEN conjunct2, THEN conjunct2, THEN conjunct1]
  have "check_telemetry_events (file_name ?f) ?c = []
           \<longleftrightarrow> token_occurs (stem (file_name ?f)) ?b"
    by (rule mp)
  with m have ne: "check_telemetry_events (lit ''myagent.md'') ?c \<noteq> []" unfolding fn st by simp
  have d: "lit ''Telemetry events should follow pattern `agent.'' @ lit ''myagent'' @ lit ''.*`''
      = lit ''Telemetry events should follow pattern `agent.myagent.*`''"
    by (simp add: lit_def)
  have "check_telemetry_events (lit ''myagent.md'') ?c = [?e]
      \<or> check_telemetry_events (lit ''myagent.md'') ?c = []"
    unfolding check_telemetry_events_eq s st d by simp
  with ne have chk: "check_telemetry_events (lit ''myagent.md'') ?c = [?e]" by simp
  from fi[THEN conjunct2, THEN conjunct2, THEN conjunct1] rt
  have "filter (\<lambda>e. error_type e = lit ''TELEMETRY_NAMING'') (file_errors ?f)
          = check_telemetry_events (file_name ?f) ?c"
    by (rule mp)
  then have filt: "filter (\<lambda>e. error_type e = lit ''TELEMETRY_NAMING'') (file_errors ?f) = [?e]"
    unfolding fn chk .
  have "?e \<in> set (filter (\<lambda>e. error_type e = lit ''TELEMETRY_NAMING'') (file_errors ?f))"
    unfolding filt by simp
  then have mem: "?e \<in> set (file_errors ?f)" by simp
  from fi[THEN conjunct1, THEN bspec, OF mem, THEN conjunct2]
  have str: "str_of_error ?e
     = [10060] @ lit '' myagent.md: [TELEMETRY_NAMING] Telemetry events should follow pattern `agent.myagent.*`''"
    by (simp add: lit_def)
  have "errors ?v \<noteq> []" by simp
  with fi[THEN conjunct2, THEN conjunct1]
  have "stdout (print_summary ?v) =
          stdout ?v @ [[], replicate 70 61, lit ''VALIDATION FAILURES'', replicate 70 61]
            @ map str_of_error (errors ?v)
            @ [[], [10060] @ lit '' Validation failed with '' @ str_of_nat (length (errors ?v))
                     @ lit '' error(s)'']"
    by (rule mp)
  moreover have "[10060] @ lit '' Validation failed with '' @ str_of_nat (length (errors ?v))
      @ lit '' error(s)'' = [10060] @ lit '' Validation failed with 1 error(s)''"
    by (simp add: lit_def)
  moreover have "stdout ?v = []" and "errors ?v = [?e]" by simp_all
  ultimately have pr: "stdout (print_summary ?v)
     = [[], replicate 70 61, lit ''VALIDATION FAILURES'', replicate 70 61,
        [10060] @ lit '' myagent.md: [TELEMETRY_NAMING] Telemetry events should follow pattern `agent.myagent.*`'',
        [], [10060] @ lit '' Validation failed with 1 error(s)'']"
    using str by (simp only: list.map append.simps)
  show ?thesis by (intro conjI filt st str pr)
qed

text \<open>
  C3 as stated fails: the finding of the document \<^verbatim>\<open>myagent.md\<close> is reported under
  \<^verbatim>\<open>myagent.md\<close>, not under the base name \<^verbatim>\<open>myagent\<close> its event was compared with.
\<close>

theorem finding_identity_counterexample:
  "map str_of_error
     (check_telemetry_events (lit ''myagent.md'')
        (lit ''### Events to Track\<newline>- `agent.frontend.clicked`\<newline>''))
   = [[10060] @ lit '' myagent.md: [TELEMETRY_NAMING] Telemetry events should follow pattern `agent.myagent.*`'']
   \<and> stem (lit ''myagent.md'') = lit ''myagent''
   \<and> lit ''myagent.md'' \<noteq> lit ''myagent''"
proof -
  let ?c = "lit ''### Events to Track\<newline>- `agent.frontend.clicked`\<newline>''"
  let ?b = "lit ''- `agent.frontend.clicked`\<newline>''"
  have s: "section_search (lit ''### Events to Track'') [NL # lit ''###'', NL # lit ''##''] ?c = Some ?b"
    by (simp add: section_at_def lazy_dot_plus_def lookahead_def starts_with_def lit_def NL_def
        is_space_def)
  have st: "stem (lit ''myagent.md'') = lit ''myagent''"
    by (simp add: stem_def lit_def Let_def)
  have o: "token_occurs (lit ''frontend'') ?b"
    by (simp add: token_occurs_def lit_def starts_with_def is_name_char_def)
  have ex: "\<exists>t. token_occurs t ?b"
    using o by (rule exI[where P = "\<lambda>t. token_occurs t ?b"])
  have m: "\<not> token_occurs (lit ''myagent'') ?b"
    by (simp add: token_occurs_def lit_def starts_with_def)
  have "check_telemetry_events (lit ''myagent.md'') ?c =
     [\<lparr>filename = lit ''myagent.md'', error_type = lit ''TELEMETRY_NAMING'',
        details = lit ''Telemetry events should follow pattern `agent.'' @ lit ''myagent''
          @ lit ''.*`''\<rparr>]"
    unfolding check_telemetry_events_eq s st using ex m by simp
  then have "map str_of_error (check_telemetry_events (lit ''myagent.md'') ?c)
   = [[10060] @ lit '' myagent.md: [TELEMETRY_NAMING] Telemetry events should follow pattern `agent.myagent.*`'']"
    by (simp add: str_of_error_def lit_def)
  moreover have "lit ''myagent.md'' \<noteq> lit ''myagent''" by (simp add: lit_def)
  ultimately show ?thesis using st by (intro conjI)
qed

end
